theory Spec2Isabelle
  imports Main "HOL-Library.Word"
begin

unbundle bit_operations_syntax

section \<open>Constants and data of \<open>main.c\<close>\<close>

type_synonym u64 = "64 word"
type_synonym u128 = "128 word"

text \<open>The macros of the source, with the values the source gives them. \<open>SCRATCHPAD\<close> is a
  size in bytes; the buffer \<open>narr\<close> therefore holds \<open>SCRATCHPAD div 8\<close> words.\<close>

definition STEPS_PRINT_RATE :: u64 where
  "STEPS_PRINT_RATE = push_bit 18 1"

definition NWORDS :: nat where
  "NWORDS = 50000000"

definition FARPAD :: nat where
  "FARPAD = 1000000"

definition MSB64 :: u64 where
  "MSB64 = 9223372036854775808"

definition SCRATCHPAD :: nat where
  "SCRATCHPAD = FARPAD * 8 + NWORDS * 8"

definition MAX_CVALUE :: u64 where
  "MAX_CVALUE = 4052555153018976267"

definition MAX_KVALUE :: u64 where
  "MAX_KVALUE = 6148914691236517204"

text \<open>What C leaves undefined is an error value of the model: an access outside the
  allocated buffer, and a bit count of zero (\<open>__builtin_clzll(0)\<close>, \<open>__builtin_ctzll(0)\<close>).
  \<open>NotEnoughMemory\<close> is the diagnostic of the loader followed by \<open>exit(1)\<close>.\<close>

datatype error = NotEnoughMemory | OutOfBounds | UndefinedCount

definition bind_err :: "error + 'a \<Rightarrow> ('a \<Rightarrow> error + 'b) \<Rightarrow> error + 'b" where
  "bind_err r f = (case r of Inl e \<Rightarrow> Inl e | Inr x \<Rightarrow> f x)"

text \<open>The local variables of \<open>main\<close> that live across loop iterations. The pointers
  \<open>wordoffset\<close> and \<open>lastword\<close> are word indices relative to \<open>narr\<close>; the buffer is a store
  from word index to word.\<close>

record state =
  narr :: "nat \<Rightarrow> u64"
  wordoffset :: nat
  bitmask :: u64
  lastword :: nat
  bitsize :: u64
  cvalue :: u64
  kvalue :: u64
  steps :: u64
  divsteps :: u64
  mulsteps :: u64
  laststep :: u64

section \<open>Bit counting builtins\<close>

fun bit_length :: "nat \<Rightarrow> nat" where
  "bit_length n = (if n = 0 then 0 else Suc (bit_length (n div 2)))"

fun trailing_zeros :: "nat \<Rightarrow> nat" where
  "trailing_zeros n = (if n = 0 \<or> odd n then 0 else Suc (trailing_zeros (n div 2)))"

declare bit_length.simps [simp del] trailing_zeros.simps [simp del]

definition builtin_clzll :: "u64 \<Rightarrow> error + nat" where
  "builtin_clzll x = (if x = 0 then Inl UndefinedCount else Inr (64 - bit_length (unat x)))"

definition builtin_ctzll :: "u64 \<Rightarrow> error + nat" where
  "builtin_ctzll x = (if x = 0 then Inl UndefinedCount else Inr (trailing_zeros (unat x)))"

section \<open>The body of the main loop\<close>

text \<open>\<open>(__uint128_t) w * cvalue + kvalue\<close>, lines 99 and 142.\<close>

definition mul_add :: "u64 \<Rightarrow> u64 \<Rightarrow> u64 \<Rightarrow> u128" where
  "mul_add w c k = ucast w * ucast c + ucast k"

text \<open>The even branch, lines 96 to 105. \<open>reveal\<close> is the case of line 97, where the
  cursor leaves its word: the next word receives the pending transform (lines 99 to 103).\<close>

definition reveal :: "state \<Rightarrow> state" where
  "reveal s =
     s\<lparr>wordoffset := wordoffset s + 1,
       narr := (narr s)(wordoffset s + 1 :=
                  ucast (mul_add (narr s (wordoffset s + 1)) (cvalue s) (kvalue s))),
       kvalue := ucast (drop_bit 64 (mul_add (narr s (wordoffset s + 1)) (cvalue s) (kvalue s))),
       bitmask := 1,
       steps := steps s + 1,
       divsteps := divsteps s + 1\<rparr>"

definition even_branch :: "state \<Rightarrow> error + state" where
  "even_branch s =
     (if bitmask s = MSB64 then
        (if wordoffset s + 1 < SCRATCHPAD div 8 then Inr (reveal s) else Inl OutOfBounds)
      else Inr (s\<lparr>bitmask := push_bit 1 (bitmask s),
                   steps := steps s + 1,
                   divsteps := divsteps s + 1\<rparr>))"

text \<open>The lazy update of the cursor word, lines 130 to 134: \<open>twice\<close>, the word written
  back, and the carry added to \<open>kvalue\<close>.\<close>

definition lazy_twice :: "u64 \<Rightarrow> u64" where
  "lazy_twice oldval = push_bit 1 oldval"

definition lazy_word :: "u64 \<Rightarrow> u64 \<Rightarrow> u64" where
  "lazy_word oldval bm = lazy_twice oldval + oldval + bm"

definition lazy_carry :: "u64 \<Rightarrow> u64 \<Rightarrow> u64" where
  "lazy_carry oldval bm =
     of_bool (lazy_twice oldval < oldval) + of_bool (lazy_word oldval bm \<le> lazy_twice oldval)"

text \<open>The guard of line 124 and the updates of lines 128 and 134.\<close>

definition guard :: "state \<Rightarrow> bool" where
  "guard s = (cvalue s \<le> MAX_CVALUE \<and> kvalue s \<le> MAX_KVALUE)"

definition triple_cvalue :: "u64 \<Rightarrow> u64" where
  "triple_cvalue c = push_bit 1 c + c"

definition triple_kvalue :: "u64 \<Rightarrow> u64 \<Rightarrow> u64" where
  "triple_kvalue k carry = push_bit 1 k + k + carry"

text \<open>The lazy evaluation, lines 126 to 134.\<close>

definition lazy_update :: "state \<Rightarrow> state" where
  "lazy_update s =
     (let oldval = narr s (wordoffset s) in
      s\<lparr>steps := steps s + 1,
        mulsteps := mulsteps s + 1,
        cvalue := triple_cvalue (cvalue s),
        narr := (narr s)(wordoffset s := lazy_word oldval (bitmask s)),
        kvalue := triple_kvalue (kvalue s) (lazy_carry oldval (bitmask s))\<rparr>)"

text \<open>The loop of lines 141 to 146, from \<open>wordptr\<close> up to \<open>lastword\<close>.\<close>

function actualize_loop ::
  "nat \<Rightarrow> nat \<Rightarrow> u64 \<Rightarrow> (nat \<Rightarrow> u64) \<Rightarrow> u64 \<Rightarrow> error + ((nat \<Rightarrow> u64) \<times> u64)" where
  "actualize_loop wordptr lw c mem k =
     (if wordptr < lw then
        (if wordptr < SCRATCHPAD div 8 then
           (let val128 = mul_add (mem wordptr) c k in
            actualize_loop (wordptr + 1) lw c (mem(wordptr := ucast val128))
              (ucast (drop_bit 64 val128)))
         else Inl OutOfBounds)
      else Inr (mem, k))"
  by pat_completeness auto
termination
  by (relation "measure (\<lambda>(wordptr, lw, c, mem, k). lw - wordptr)") auto

declare actualize_loop.simps [simp del]

text \<open>The window shift of lines 155 to 160; \<open>memmove\<close> copies
  \<open>lastword - wordoffset\<close> words from \<open>wordoffset\<close> to the start of the buffer.\<close>

definition shifted :: "state \<Rightarrow> state" where
  "shifted s =
     s\<lparr>narr := (\<lambda>i. if i < lastword s - wordoffset s then narr s (wordoffset s + i) else narr s i),
       lastword := lastword s - wordoffset s,
       wordoffset := 0\<rparr>"

definition compact :: "state \<Rightarrow> error + state" where
  "compact s =
     (if lastword s \<ge> SCRATCHPAD div 8 - 2 then
        (if wordoffset s \<le> lastword s \<and> lastword s \<le> SCRATCHPAD div 8 then Inr (shifted s)
         else Inl OutOfBounds)
      else Inr s)"

text \<open>Lines 163 to 166; the printed line itself is not modelled.\<close>

definition report :: "state \<Rightarrow> state" where
  "report s = (if steps s \<ge> laststep s + STEPS_PRINT_RATE then s\<lparr>laststep := steps s\<rparr> else s)"

text \<open>The actualization, lines 140 to 166 (label \<open>actualize\<close>).\<close>

definition carry_out :: "(nat \<Rightarrow> u64) \<Rightarrow> nat \<Rightarrow> u64 \<Rightarrow> error + ((nat \<Rightarrow> u64) \<times> nat)" where
  "carry_out mem lw k =
     (if k \<noteq> 0 then
        (if lw < SCRATCHPAD div 8 then Inr (mem(lw := k), lw + 1) else Inl OutOfBounds)
      else Inr (mem, lw))"

definition actualize :: "state \<Rightarrow> error + state" where
  "actualize s =
     bind_err (actualize_loop (wordoffset s + 1) (lastword s) (cvalue s) (narr s) (kvalue s))
       (\<lambda>(mem, k).
     bind_err (carry_out mem (lastword s) k)
       (\<lambda>(mem', lw).
     bind_err (if 1 \<le> lw \<and> lw \<le> SCRATCHPAD div 8 then builtin_clzll (mem' (lw - 1))
               else Inl OutOfBounds)
       (\<lambda>clz.
     bind_err (builtin_ctzll (bitmask s))
       (\<lambda>ctz.
     bind_err (compact (s\<lparr>narr := mem', lastword := lw, cvalue := 1, kvalue := 0,
                 bitsize := word_of_int ((int lw - 0 - 1) * 64 + 64 - int clz - int ctz)\<rparr>))
       (\<lambda>s'. Inr (report s'))))))"

text \<open>Lines 170 and 171.\<close>

definition refresh_bitsize :: "state \<Rightarrow> error + state" where
  "refresh_bitsize s =
     (if wordoffset s + 1 = lastword s then
        (if wordoffset s < SCRATCHPAD div 8 then
           bind_err (builtin_clzll (narr s (wordoffset s)))
             (\<lambda>clz. bind_err (builtin_ctzll (bitmask s))
               (\<lambda>ctz. Inr (s\<lparr>bitsize := word_of_int (64 - int clz - int ctz)\<rparr>)))
         else Inl OutOfBounds)
      else Inr s)"

text \<open>The test of line 137.\<close>

definition hail_mary :: "state \<Rightarrow> bool" where
  "hail_mary s = (wordoffset s + 1 = lastword s \<and> kvalue s \<noteq> 0)"

text \<open>The test of line 95.\<close>

definition is_even :: "state \<Rightarrow> bool" where
  "is_even s = (narr s (wordoffset s) AND bitmask s = 0)"

text \<open>One iteration of the loop of line 94, lines 95 to 171.\<close>

definition branch :: "state \<Rightarrow> error + state" where
  "branch s =
     (if is_even s then even_branch s
      else if guard s then
        (let s' = lazy_update s in if hail_mary s' then actualize s' else Inr s')
      else actualize s)"

definition step :: "state \<Rightarrow> error + state" where
  "step s =
     (if wordoffset s < SCRATCHPAD div 8 then bind_err (branch s) refresh_bitsize
      else Inl OutOfBounds)"

text \<open>The loop of line 94. It need not end; \<open>run n\<close> performs at most \<open>n\<close> iterations and
  is \<open>None\<close> when the loop has not ended by then.\<close>

fun run :: "nat \<Rightarrow> state \<Rightarrow> (error + state) option" where
  "run 0 s = (if bitsize s = 1 then Some (Inr s) else None)"
| "run (Suc n) s =
     (if bitsize s = 1 then Some (Inr s)
      else case step s of Inl e \<Rightarrow> Some (Inl e) | Inr s' \<Rightarrow> run n s')"

section \<open>Initialisation, lines 41 to 80\<close>

text \<open>The state at line 93: the cursor at bit 0 of word 0 of the buffer, no pending
  transform, counters at zero.\<close>

definition fresh_state :: "(nat \<Rightarrow> u64) \<Rightarrow> nat \<Rightarrow> u64 \<Rightarrow> state" where
  "fresh_state mem lw bs =
     \<lparr>narr = mem, wordoffset = 0, bitmask = 1, lastword = lw, bitsize = bs,
      cvalue = 1, kvalue = 0, steps = 0, divsteps = 0, mulsteps = 0, laststep = 0\<rparr>"

text \<open>\<open>asbyte\<close>, lines 180 to 187. The argument is the memory seen from the pointer \<open>s\<close>.\<close>

function asbyte_loop :: "(nat \<Rightarrow> char) \<Rightarrow> nat \<Rightarrow> u64 \<Rightarrow> u64" where
  "asbyte_loop s i v =
     (if i < 64 then
        asbyte_loop s (i + 1) (v + push_bit (63 - i) (if s i = CHR ''0'' then 0 else 1))
      else v)"
  by pat_completeness auto
termination
  by (relation "measure (\<lambda>(s, i, v). 64 - i)") auto

declare asbyte_loop.simps [simp del]

definition asbyte :: "(nat \<Rightarrow> char) \<Rightarrow> u64" where
  "asbyte s = asbyte_loop s 0 0"

text \<open>The loop of lines 65 and 66. The pointer \<open>c\<close> is an offset from \<open>num\<close>.\<close>

function load_loop ::
  "(nat \<Rightarrow> char) \<Rightarrow> nat \<Rightarrow> nat \<Rightarrow> nat \<Rightarrow> (nat \<Rightarrow> u64) \<Rightarrow> nat \<times> nat \<times> (nat \<Rightarrow> u64)" where
  "load_loop num extra c i mem =
     (if c > extra then
        load_loop num extra (c - 64) (i + 1) (mem(i := asbyte (\<lambda>j. num (c - 64 + j))))
      else (c, i, mem))"
  by pat_completeness auto
termination
  by (relation "measure (\<lambda>(num, extra, c, i, mem). c)") auto

declare load_loop.simps [simp del]

text \<open>Lines 48 to 74. \<open>usf_ftos\<close> is a library function: it returns the content of the file
  and its length. \<open>content\<close> is the content of the file, \<open>after\<close> the memory behind the
  returned string, \<open>mem\<close> the fresh buffer (which \<open>posix_memalign\<close> does not clear).
  \<open>num[--flen]\<close> on an empty file writes before the string.\<close>

definition load :: "(nat \<Rightarrow> u64) \<Rightarrow> (nat \<Rightarrow> char) \<Rightarrow> string \<Rightarrow> error + state" where
  "load mem after content =
     (if content = [] then Inl OutOfBounds
      else
        (let flen = length content - 1;
             num = (\<lambda>i. if i < length content then content ! i else after i)(flen := CHR 0x00);
             extra = flen mod 64;
             bs = (word_of_nat flen :: u64)
         in if bs div 64 > word_of_nat NWORDS then Inl NotEnoughMemory
            else
              (let (c, i, mem') = load_loop num extra flen 0 mem;
                   (i', mem'') =
                     (if extra \<noteq> 0
                      then (i + 1,
                            mem'(i := drop_bit (64 - extra) (asbyte (\<lambda>j. num (c - flen mod 64 + j)))))
                      else (i, mem'))
               in Inr (fresh_state mem'' i' bs))))"

text \<open>Lines 76 to 79: without a file, \<open>memset\<close> fills \<open>SCRATCHPAD - FARPAD * 8\<close> bytes.\<close>

definition synthetic :: "(nat \<Rightarrow> u64) \<Rightarrow> state" where
  "synthetic mem =
     fresh_state (\<lambda>i. if i < (SCRATCHPAD - FARPAD * 8) div 8 then - 1 else mem i)
       ((SCRATCHPAD - FARPAD) div 8)
       (word_of_nat ((SCRATCHPAD - FARPAD * 8) * 8))"

section \<open>The tracked value and the reference computation\<close>

text \<open>The integer held by \<open>n\<close> consecutive words of the buffer from index \<open>lo\<close>, least
  significant word first.\<close>

fun words_value :: "(nat \<Rightarrow> u64) \<Rightarrow> nat \<Rightarrow> nat \<Rightarrow> nat" where
  "words_value mem lo 0 = 0"
| "words_value mem lo (Suc n) = unat (mem lo) + 2 ^ 64 * words_value mem (Suc lo) n"

text \<open>The integer held by the words strictly above the cursor word.\<close>

definition upper_value :: "state \<Rightarrow> nat" where
  "upper_value s = words_value (narr s) (wordoffset s + 1) (lastword s - (wordoffset s + 1))"

text \<open>The tracked value: the buffer from the cursor word to \<open>lastword - 1\<close>, with the pending
  transform applied to the words strictly above the cursor word, read from the cursor's
  bit.\<close>

definition tracked :: "state \<Rightarrow> nat" where
  "tracked s =
     (unat (narr s (wordoffset s)) + 2 ^ 64 * (unat (cvalue s) * upper_value s + unat (kvalue s)))
       div unat (bitmask s)"

text \<open>The integer the buffer itself holds from the cursor's bit, with no transform applied.\<close>

definition buffer_value :: "state \<Rightarrow> nat" where
  "buffer_value s =
     words_value (narr s) (wordoffset s) (lastword s - wordoffset s) div unat (bitmask s)"

text \<open>The path an iteration of the loop takes: the even branch, the lazy evaluation alone,
  the lazy evaluation followed by the jump of line 137 to the actualization, or the
  actualization alone (which consumes no bit).\<close>

datatype event = EvenStep | LazyStep | LazyFlush | Flush

definition event_of :: "state \<Rightarrow> event" where
  "event_of s =
     (if is_even s then EvenStep
      else if guard s then (if hail_mary (lazy_update s) then LazyFlush else LazyStep)
      else Flush)"

text \<open>The executions of the loop of line 94 from a state, with the path of each iteration.\<close>

inductive exec :: "state \<Rightarrow> event list \<Rightarrow> state \<Rightarrow> bool" where
  exec_start: "exec s0 [] s0"
| exec_step: "exec s0 evs s \<Longrightarrow> bitsize s \<noteq> 1 \<Longrightarrow> step s = Inr s' \<Longrightarrow>
              exec s0 (evs @ [event_of s]) s'"

text \<open>The reference: arbitrary-precision arithmetic, one step at a time.\<close>

fun eager_step :: "event \<Rightarrow> nat \<Rightarrow> nat" where
  "eager_step EvenStep x = x div 2"
| "eager_step LazyStep x = 3 * x + 1"
| "eager_step LazyFlush x = 3 * x + 1"
| "eager_step Flush x = x"

definition eager :: "event list \<Rightarrow> nat \<Rightarrow> nat" where
  "eager evs x = foldl (\<lambda>y e. eager_step e y) x evs"

text \<open>The number of lazy evaluations since the last actualization.\<close>

fun pending_step :: "nat \<Rightarrow> event \<Rightarrow> nat" where
  "pending_step g EvenStep = g"
| "pending_step g LazyStep = Suc g"
| "pending_step g LazyFlush = 0"
| "pending_step g Flush = 0"

definition pending :: "event list \<Rightarrow> nat" where
  "pending evs = foldl pending_step 0 evs"

text \<open>What every state of an execution satisfies: the mask is a single bit, the cursor word
  has no bit set below the cursor, the cursor word lies below \<open>lastword\<close> inside the
  buffer, and a last word with the cursor at its top bit is not zero.\<close>

definition cursor_ok :: "state \<Rightarrow> bool" where
  "cursor_ok s =
     ((\<exists>j<64. bitmask s = 2 ^ j) \<and>
      unat (bitmask s) dvd unat (narr s (wordoffset s)) \<and>
      wordoffset s < lastword s \<and> lastword s \<le> SCRATCHPAD div 8)"

definition state_ok :: "state \<Rightarrow> bool" where
  "state_ok s =
     (cursor_ok s \<and>
      (wordoffset s + 1 = lastword s \<and> bitmask s = MSB64 \<longrightarrow> narr s (wordoffset s) \<noteq> 0))"

section \<open>Single-word lazy update\<close>

lemma unat_two_power:
  assumes "j < 64" shows "unat (2 ^ j :: u64) = 2 ^ j"
proof -
  have "(2 ^ j :: u64) = word_of_nat (2 ^ j)" by simp
  hence "unat (2 ^ j :: u64) = 2 ^ j mod 2 ^ LENGTH(64)" by (simp only: unat_of_nat)
  hence "unat (2 ^ j :: u64) = 2 ^ j mod 2 ^ 64" by simp
  moreover have "(2::nat) ^ j < 2 ^ 64" using assms by (simp only: power_strict_increasing_iff)
  ultimately show ?thesis by simp
qed

lemma unat_lazy_twice: "unat (lazy_twice w) = (2 * unat w) mod 2 ^ 64"
  by (simp add: lazy_twice_def unat_word_ariths mult.commute)

lemma unat_lazy_word:
  "unat (lazy_word w m) = (unat (lazy_twice w) + unat w + unat m) mod 2 ^ 64"
  by (simp add: lazy_word_def unat_word_ariths mod_simps)

lemma unat_lazy_carry:
  "unat (lazy_carry w m) =
     (if unat (lazy_twice w) < unat w then 1 else 0) +
     (if unat (lazy_word w m) \<le> unat (lazy_twice w) then 1 else 0)"
  by (simp add: lazy_carry_def word_less_nat_alt word_le_nat_alt)

lemma pow2_dvd_room:
  fixes x :: nat
  assumes "j < 64" "2 ^ j dvd x" "x < 2 ^ 64"
  shows "x + 2 ^ j \<le> 2 ^ 64"
proof -
  from assms(2) obtain q where q: "x = 2 ^ j * q" ..
  have split: "(2::nat) ^ 64 = 2 ^ j * 2 ^ (64 - j)"
    using assms(1) by (simp flip: power_add)
  with q assms(3) have "2 ^ j * q < 2 ^ j * 2 ^ (64 - j)" by simp
  hence "q < 2 ^ (64 - j)" by simp
  hence "q + 1 \<le> 2 ^ (64 - j)" by simp
  hence "2 ^ j * (q + 1) \<le> 2 ^ j * 2 ^ (64 - j)" by (rule mult_le_mono2)
  thus ?thesis using q split by simp
qed

lemma lazy_arith:
  fixes x m :: nat
  assumes "x < 2 ^ 64" "0 < m" "x + m \<le> 2 ^ 64"
  defines "t \<equiv> (2 * x) mod 2 ^ 64"
  defines "n \<equiv> (t + x + m) mod 2 ^ 64"
  shows "3 * x + m = n + ((if t < x then 1 else 0) + (if n \<le> t then 1 else 0)) * 2 ^ 64"
proof -
  have t: "t = (if x < 2 ^ 63 then 2 * x else 2 * x - 2 ^ 64)"
    using assms(1) unfolding t_def by (auto simp: mod_if)
  have tl: "t < 2 ^ 64" unfolding t_def by simp
  have n: "n = (if t + x + m < 2 ^ 64 then t + x + m else t + x + m - 2 ^ 64)"
    using tl assms unfolding n_def by (auto simp: mod_if)
  show ?thesis using t n assms(1-3) by (auto split: if_splits)
qed

lemma lazy_word_carry:
  fixes oldval bm :: u64
  assumes "j < 64" "bm = 2 ^ j" "unat bm dvd unat oldval"
  shows "3 * unat oldval + unat bm =
           unat (lazy_word oldval bm) + unat (lazy_carry oldval bm) * 2 ^ 64"
proof -
  have m: "unat bm = 2 ^ j" using assms(1,2) by (simp add: unat_two_power)
  have lt: "unat oldval < 2 ^ 64" using unsigned_less [of oldval] by simp
  have room: "unat oldval + unat bm \<le> 2 ^ 64"
    using pow2_dvd_room [OF assms(1), of "unat oldval"] assms(3) m lt by simp
  show ?thesis
    using lazy_arith [OF lt _ room] m
    by (simp add: unat_lazy_carry unat_lazy_word unat_lazy_twice)
qed

lemma lazy_carry_le2: "unat (lazy_carry oldval bm) \<le> 2"
  by (simp add: unat_lazy_carry)

text \<open>C2, as stated: for every word with the cursor's bit set and every single-bit mask the
  word written back and the computed carry add up to \<open>3 * old + bitmask\<close>. This fails when
  the word has bits set below the cursor: for the word of 64 ones and the mask \<open>2\<close> the code
  computes the carry 1 where the true carry is 2.\<close>

theorem lazy_update_carry_counterexample:
  "(0xFFFFFFFFFFFFFFFF :: u64) AND 2 \<noteq> 0 \<and> (2 :: u64) = 2 ^ 1 \<and>
   3 * unat (0xFFFFFFFFFFFFFFFF :: u64) + unat (2 :: u64) \<noteq>
     unat (lazy_word 0xFFFFFFFFFFFFFFFF 2) + unat (lazy_carry 0xFFFFFFFFFFFFFFFF 2) * 2 ^ 64"
  by (simp add: lazy_word_def lazy_carry_def lazy_twice_def)

text \<open>C2, amended: for every word whose bits below the cursor are all zero (the word is a
  multiple of the mask) and whose cursor bit is set, and every single-bit mask, the word
  written back and the carry satisfy \<open>3 * old + bitmask = new + carry * 2^64\<close>, and the carry
  is 0, 1 or 2.\<close>

theorem lazy_update_carry:
  fixes oldval bm :: u64
  assumes "j < 64" and "bm = 2 ^ j" and "oldval AND bm \<noteq> 0"
    and "unat bm dvd unat oldval"
  shows "3 * unat oldval + unat bm =
           unat (lazy_word oldval bm) + unat (lazy_carry oldval bm) * 2 ^ 64 \<and>
         unat (lazy_carry oldval bm) \<in> {0, 1, 2}"
proof -
  have "unat (lazy_carry oldval bm) \<le> 2" by (rule lazy_carry_le2)
  hence "unat (lazy_carry oldval bm) \<in> {0, 1, 2}" by auto
  with lazy_word_carry [OF assms(1,2,4)] show ?thesis by simp
qed

theorem lazy_update_carry_witness:
  "(3 :: nat) < 64 \<and> (8 :: u64) = 2 ^ 3 \<and> (0xFFFFFFFFFFFFFFF8 :: u64) AND 8 \<noteq> 0 \<and>
   unat (8 :: u64) dvd unat (0xFFFFFFFFFFFFFFF8 :: u64) \<and>
   3 * unat (0xFFFFFFFFFFFFFFF8 :: u64) + unat (8 :: u64) =
     unat (lazy_word 0xFFFFFFFFFFFFFFF8 8) + unat (lazy_carry 0xFFFFFFFFFFFFFFF8 8) * 2 ^ 64 \<and>
   unat (lazy_carry 0xFFFFFFFFFFFFFFF8 8) \<in> {0, 1, 2}"
proof -
  have h1: "(3 :: nat) < 64" by simp
  have h2: "(8 :: u64) = 2 ^ 3" by simp
  have h3: "(0xFFFFFFFFFFFFFFF8 :: u64) AND 8 \<noteq> 0" by simp
  have h4: "unat (8 :: u64) dvd unat (0xFFFFFFFFFFFFFFF8 :: u64)" by simp
  from lazy_update_carry [OF h1 h2 h3 h4] h1 h2 h3 h4 show ?thesis by blast
qed

section \<open>Words of the buffer as an integer\<close>

lemma bind_err_Inr_iff:
  "(bind_err r f = Inr y) = (\<exists>x. r = Inr x \<and> f x = Inr y)"
  by (cases r) (simp_all add: bind_err_def)

lemma words_value_cong:
  "(\<And>i. i < n \<Longrightarrow> mem' (lo' + i) = mem (lo + i)) \<Longrightarrow>
   words_value mem' lo' n = words_value mem lo n"
proof (induction n arbitrary: lo lo')
  case 0
  show ?case by simp
next
  case (Suc n)
  have "mem' lo' = mem lo" using Suc.prems [of 0] by simp
  moreover have "words_value mem' (Suc lo') n = words_value mem (Suc lo) n"
  proof (rule Suc.IH)
    fix i assume "i < n"
    thus "mem' (Suc lo' + i) = mem (Suc lo + i)" using Suc.prems [of "Suc i"] by simp
  qed
  ultimately show ?case by simp
qed

lemma words_value_upd_below:
  "p < lo \<Longrightarrow> words_value (mem(p := v)) lo n = words_value mem lo n"
  by (rule words_value_cong) simp

lemma words_value_upd_above:
  "lo + n \<le> p \<Longrightarrow> words_value (mem(p := v)) lo n = words_value mem lo n"
  by (rule words_value_cong) simp

lemma words_value_snoc:
  "words_value mem lo (Suc n) = words_value mem lo n + 2 ^ (64 * n) * unat (mem (lo + n))"
proof (induction n arbitrary: lo)
  case 0
  show ?case by simp
next
  case (Suc n)
  have "words_value mem lo (Suc (Suc n)) = unat (mem lo) + 2 ^ 64 * words_value mem (Suc lo) (Suc n)"
    by simp
  also have "\<dots> = unat (mem lo) + 2 ^ 64 * (words_value mem (Suc lo) n + 2 ^ (64 * n) * unat (mem (Suc lo + n)))"
    by (simp only: Suc.IH)
  also have "\<dots> = words_value mem lo (Suc n) + 2 ^ (64 * Suc n) * unat (mem (lo + Suc n))"
    by (simp add: algebra_simps power_add)
  finally show ?case .
qed

lemma unat_ucast_u128: "unat (ucast (w :: u64) :: u128) = unat w"
proof -
  have "unat w < 2 ^ 64" using unsigned_less [of w] by simp
  hence "unat w < 2 ^ 128" by simp
  thus ?thesis by (simp add: unsigned_ucast_eq take_bit_nat_eq_self)
qed

lemma unat_mul_add: "unat (mul_add w c k) = unat w * unat c + unat k"
proof -
  have w: "unat w < 2 ^ 64" and c: "unat c < 2 ^ 64" and k: "unat k < 2 ^ 64"
    using unsigned_less [of w] unsigned_less [of c] unsigned_less [of k] by simp_all
  have "unat w * unat c \<le> (2 ^ 64 - 1) * (2 ^ 64 - 1)"
    using w c by (intro mult_mono) simp_all
  hence b: "unat w * unat c + unat k < 2 ^ 128" using k by simp
  hence "(unat w * unat c mod 2 ^ 128 + unat k) mod 2 ^ 128 = unat w * unat c + unat k"
    by (simp add: mod_simps)
  thus ?thesis
    by (simp add: mul_add_def unat_word_ariths unat_ucast_u128)
qed

lemma mul_add_split:
  "unat (ucast (mul_add w c k) :: u64) + 2 ^ 64 * unat (ucast (drop_bit 64 (mul_add w c k)) :: u64)
     = unat w * unat c + unat k"
proof -
  let ?v = "mul_add w c k"
  have v: "unat ?v < 2 ^ 128" using unsigned_less [of ?v] by simp
  have lo: "unat (ucast ?v :: u64) = unat ?v mod 2 ^ 64"
    by (simp add: unsigned_ucast_eq take_bit_eq_mod)
  have d: "unat (drop_bit 64 ?v) = unat ?v div 2 ^ 64"
    by (subst unat_drop_bit_eq) (simp only: drop_bit_eq_div)
  have "unat ?v div 2 ^ 64 < 2 ^ 64" using v by (simp add: less_mult_imp_div_less)
  hence "take_bit 64 (unat (drop_bit 64 ?v)) = unat ?v div 2 ^ 64"
    by (simp only: d take_bit_nat_eq_self)
  hence hi: "unat (ucast (drop_bit 64 ?v) :: u64) = unat ?v div 2 ^ 64"
    by (simp add: unsigned_ucast_eq)
  show ?thesis unfolding lo hi unat_mul_add [symmetric] by simp
qed

lemma actualize_loop_unfold:
  "p < lw \<Longrightarrow> p < SCRATCHPAD div 8 \<Longrightarrow>
   actualize_loop p lw c mem k =
     actualize_loop (p + 1) lw c (mem(p := ucast (mul_add (mem p) c k)))
       (ucast (drop_bit 64 (mul_add (mem p) c k)))"
  by (subst actualize_loop.simps) (simp add: Let_def)

lemma actualize_loop_value:
  "actualize_loop p lw c mem k = Inr (mem', k') \<Longrightarrow> p \<le> lw \<Longrightarrow>
   words_value mem' p (lw - p) + 2 ^ (64 * (lw - p)) * unat k' =
     unat c * words_value mem p (lw - p) + unat k \<and>
   (\<forall>i. i < p \<or> lw \<le> i \<longrightarrow> mem' i = mem i)"
proof (induction p lw c mem k rule: actualize_loop.induct)
  case (1 p lw c mem k)
  show ?case
  proof (cases "p < lw")
    case False
    with "1.prems" show ?thesis by (simp add: actualize_loop.simps)
  next
    case True
    let ?v = "mul_add (mem p) c k"
    let ?m1 = "mem(p := ucast ?v)"
    let ?k1 = "ucast (drop_bit 64 ?v) :: u64"
    from True "1.prems"(1) have inb: "p < SCRATCHPAD div 8"
      by (subst (asm) actualize_loop.simps) (simp split: if_splits)
    from "1.prems"(1) have rec: "actualize_loop (p + 1) lw c ?m1 ?k1 = Inr (mem', k')"
      by (simp only: actualize_loop_unfold [OF True inb])
    from True have le: "p + 1 \<le> lw" by simp
    have ih: "words_value mem' (p + 1) (lw - (p + 1)) + 2 ^ (64 * (lw - (p + 1))) * unat k' =
                unat c * words_value ?m1 (p + 1) (lw - (p + 1)) + unat ?k1 \<and>
              (\<forall>i. i < p + 1 \<or> lw \<le> i \<longrightarrow> mem' i = ?m1 i)"
      by (rule "1.IH" [OF True inb refl rec le])
    from True obtain n where n: "lw - p = Suc n" by (cases "lw - p") simp_all
    hence n': "lw - (p + 1) = n" by simp
    have mp: "mem' p = ucast ?v" using ih by simp
    have w1: "words_value ?m1 (p + 1) n = words_value mem (p + 1) n"
      by (rule words_value_upd_below) simp
    have "words_value mem' p (Suc n) + 2 ^ (64 * Suc n) * unat k'
            = unat (ucast ?v :: u64) + 2 ^ 64 * (words_value mem' (p + 1) n + 2 ^ (64 * n) * unat k')"
      by (simp add: mp algebra_simps power_add)
    also have "\<dots> = unat (ucast ?v :: u64) + 2 ^ 64 * (unat c * words_value mem (p + 1) n + unat ?k1)"
      using ih w1 by (simp only: n')
    also have "\<dots> = (unat (mem p) * unat c + unat k) + 2 ^ 64 * (unat c * words_value mem (p + 1) n)"
      using mul_add_split [of "mem p" c k] by (simp add: algebra_simps)
    also have "\<dots> = unat c * words_value mem p (Suc n) + unat k"
      by (simp add: algebra_simps)
    finally have val: "words_value mem' p (lw - p) + 2 ^ (64 * (lw - p)) * unat k' =
       unat c * words_value mem p (lw - p) + unat k" by (simp only: n)
    have "\<forall>i. i < p \<or> lw \<le> i \<longrightarrow> mem' i = mem i" using ih True by auto
    with val show ?thesis by simp
  qed
qed

lemma actualize_loop_total:
  "lw \<le> SCRATCHPAD div 8 \<Longrightarrow> \<exists>mem' k'. actualize_loop p lw c mem k = Inr (mem', k')"
proof (induction p lw c mem k rule: actualize_loop.induct)
  case (1 p lw c mem k)
  show ?case
  proof (cases "p < lw")
    case False
    thus ?thesis by (simp add: actualize_loop.simps)
  next
    case True
    with "1.prems" have inb: "p < SCRATCHPAD div 8" by simp
    let ?v = "mul_add (mem p) c k"
    have "\<exists>mem' k'. actualize_loop (p + 1) lw c (mem(p := ucast ?v)) (ucast (drop_bit 64 ?v)) =
            Inr (mem', k')"
      by (rule "1.IH" [OF True inb refl "1.prems"])
    thus ?thesis by (simp only: actualize_loop_unfold [OF True inb])
  qed
qed

section \<open>The cursor\<close>

lemma unat_MSB64: "unat MSB64 = 2 ^ 63"
  by (simp add: MSB64_def)

lemma MSB64_eq: "MSB64 = 2 ^ 63"
  by (simp add: MSB64_def)

lemma two_power_eq_MSB64:
  assumes "j < 64" shows "((2 ^ j :: u64) = MSB64) = (j = 63)"
proof
  assume "(2 ^ j :: u64) = MSB64"
  hence "unat (2 ^ j :: u64) = unat MSB64" by simp
  hence "(2::nat) ^ j = 2 ^ 63" by (simp only: unat_two_power [OF assms] unat_MSB64)
  thus "j = 63" by (simp only: power_inject_exp)
next
  assume "j = 63" thus "(2 ^ j :: u64) = MSB64" by (simp add: MSB64_def)
qed

lemma and_bit_zero_iff:
  assumes "j < 64"
  shows "((w :: u64) AND 2 ^ j = 0) = even (unat w div 2 ^ j)"
proof -
  have "(w AND 2 ^ j = 0) = (\<not> bit w j)" by (rule and_exp_eq_0_iff_not_bit)
  also have "bit w j = bit (unat w) j" using assms by (simp add: bit_unsigned_iff)
  also have "bit (unat w) j = odd (unat w div 2 ^ j)" by (rule bit_iff_odd)
  finally show ?thesis by simp
qed

lemma tracked_shape:
  assumes "j < 64" "bitmask s = 2 ^ j"
  shows "tracked s = unat (narr s (wordoffset s)) div 2 ^ j +
           2 ^ (64 - j) * (unat (cvalue s) * upper_value s + unat (kvalue s))"
proof -
  let ?Y = "unat (cvalue s) * upper_value s + unat (kvalue s)"
  have sp: "(2::nat) ^ 64 = 2 ^ j * 2 ^ (64 - j)" using assms(1) by (simp flip: power_add)
  have "tracked s = (unat (narr s (wordoffset s)) + 2 ^ j * (2 ^ (64 - j) * ?Y)) div 2 ^ j"
    unfolding tracked_def assms(2) unat_two_power [OF assms(1)] sp by (simp only: mult.assoc)
  thus ?thesis by simp
qed

lemma is_even_tracked:
  assumes "j < 64" "bitmask s = 2 ^ j"
  shows "is_even s = even (tracked s)"
proof -
  have "0 < 64 - j" using assms(1) by simp
  hence "even ((2::nat) ^ (64 - j))" by simp
  thus ?thesis
    by (simp add: is_even_def assms and_bit_zero_iff tracked_shape [OF assms])
qed

lemma cursor_okD:
  assumes "cursor_ok s"
  obtains j where "j < 64" "bitmask s = 2 ^ j" "2 ^ j dvd unat (narr s (wordoffset s))"
    "wordoffset s < lastword s" "lastword s \<le> SCRATCHPAD div 8"
proof -
  from assms obtain j where j: "j < 64" "bitmask s = 2 ^ j" by (auto simp: cursor_ok_def)
  moreover from assms j have "2 ^ j dvd unat (narr s (wordoffset s))"
    by (simp add: cursor_ok_def unat_two_power)
  moreover from assms have "wordoffset s < lastword s" "lastword s \<le> SCRATCHPAD div 8"
    by (simp_all add: cursor_ok_def)
  ultimately show thesis by (rule that)
qed

lemma cursor_okI:
  "j < 64 \<Longrightarrow> bitmask s = 2 ^ j \<Longrightarrow> 2 ^ j dvd unat (narr s (wordoffset s)) \<Longrightarrow>
   wordoffset s < lastword s \<Longrightarrow> lastword s \<le> SCRATCHPAD div 8 \<Longrightarrow> cursor_ok s"
  unfolding cursor_ok_def by (auto simp: unat_two_power)

lemma dvd_next_bit:
  fixes x :: nat
  assumes "2 ^ j dvd x" "even (x div 2 ^ j)"
  shows "2 ^ Suc j dvd x"
proof -
  from assms(1) obtain q where q: "x = 2 ^ j * q" ..
  with assms(2) have "even q" by simp
  then obtain r where "q = 2 * r" ..
  with q have "x = 2 ^ Suc j * r" by simp
  thus ?thesis by simp
qed

lemma top_bit_clear_zero:
  fixes w :: u64
  assumes "2 ^ 63 dvd unat w" "w AND 2 ^ 63 = 0"
  shows "w = 0"
proof -
  have ev: "even (unat w div 2 ^ 63)" using assms(2) and_bit_zero_iff [of 63 w] by simp
  have "2 ^ Suc 63 dvd unat w" by (rule dvd_next_bit [OF assms(1) ev])
  hence "2 ^ 64 dvd unat w" by simp
  moreover have "unat w < 2 ^ 64" using unsigned_less [of w] by simp
  ultimately have "unat w = 0" by (meson dvd_imp_le linorder_not_less not_gr_zero)
  thus ?thesis by (simp add: unat_eq_0)
qed

lemma even_shift:
  assumes ok: "cursor_ok s" and ev: "is_even s" and nm: "bitmask s \<noteq> MSB64"
  shows "even_branch s = Inr (s\<lparr>bitmask := push_bit 1 (bitmask s), steps := steps s + 1,
            divsteps := divsteps s + 1\<rparr>)"
    and "tracked (s\<lparr>bitmask := push_bit 1 (bitmask s), steps := steps s + 1,
            divsteps := divsteps s + 1\<rparr>) = tracked s div 2"
    and "cursor_ok (s\<lparr>bitmask := push_bit 1 (bitmask s), steps := steps s + 1,
            divsteps := divsteps s + 1\<rparr>)"
proof -
  let ?s' = "s\<lparr>bitmask := push_bit 1 (bitmask s), steps := steps s + 1, divsteps := divsteps s + 1\<rparr>"
  from ok obtain j where j: "j < 64" "bitmask s = 2 ^ j"
    and dv: "2 ^ j dvd unat (narr s (wordoffset s))"
    and rng: "wordoffset s < lastword s" "lastword s \<le> SCRATCHPAD div 8"
    by (rule cursor_okD)
  from nm j have "j \<noteq> 63" by (simp add: two_power_eq_MSB64)
  with j have j1: "Suc j < 64" by simp
  have bm: "bitmask ?s' = 2 ^ Suc j" by (simp add: j push_bit_eq_mult)
  show "even_branch s = Inr ?s'" using nm by (simp add: even_branch_def)
  have up: "upper_value ?s' = upper_value s" by (simp add: upper_value_def)
  have "tracked ?s' = (unat (narr s (wordoffset s)) +
          2 ^ 64 * (unat (cvalue s) * upper_value s + unat (kvalue s))) div 2 ^ Suc j"
    unfolding tracked_def bm unat_two_power [OF j1] up by simp
  also have "\<dots> = (unat (narr s (wordoffset s)) +
          2 ^ 64 * (unat (cvalue s) * upper_value s + unat (kvalue s))) div 2 ^ j div 2"
    by (simp only: power_Suc2 div_mult2_eq)
  also have "\<dots> = tracked s div 2"
    unfolding tracked_def j(2) unat_two_power [OF j(1)] ..
  finally show "tracked ?s' = tracked s div 2" .
  from ev j have "even (unat (narr s (wordoffset s)) div 2 ^ j)"
    by (simp add: is_even_def and_bit_zero_iff)
  with dv have "2 ^ Suc j dvd unat (narr s (wordoffset s))" by (rule dvd_next_bit)
  thus "cursor_ok ?s'" using j1 bm rng by (intro cursor_okI [of "Suc j"]) simp_all
qed

section \<open>The even branch halves the tracked value\<close>

lemma even_reveal:
  assumes state_ok: "state_ok s" and ev: "is_even s" and m: "bitmask s = MSB64"
  shows "even_branch s = Inr (reveal s)"
    and "tracked (reveal s) = tracked s div 2"
    and "cursor_ok (reveal s)"
proof -
  from state_ok have ok: "cursor_ok s" by (simp add: state_ok_def)
  from ok obtain j where j: "j < 64" "bitmask s = 2 ^ j"
    and dv: "2 ^ j dvd unat (narr s (wordoffset s))"
    and rng: "wordoffset s < lastword s" "lastword s \<le> SCRATCHPAD div 8"
    by (rule cursor_okD)
  from m j have j63: "j = 63" by (simp add: two_power_eq_MSB64)
  have a: "narr s (wordoffset s) AND 2 ^ 63 = 0" using ev unfolding is_even_def m MSB64_eq .
  have dv63: "2 ^ 63 dvd unat (narr s (wordoffset s))" using dv unfolding j63 .
  have w0: "narr s (wordoffset s) = 0" by (rule top_bit_clear_zero [OF dv63 a])
  with state_ok m have "wordoffset s + 1 \<noteq> lastword s" by (auto simp: state_ok_def)
  with rng have lt: "wordoffset s + 1 < lastword s" by simp
  with rng have inb: "wordoffset s + 1 < SCRATCHPAD div 8" by simp
  show "even_branch s = Inr (reveal s)"
    using m inb by (simp add: even_branch_def)
  let ?wo = "wordoffset s"
  let ?v = "mul_add (narr s (?wo + 1)) (cvalue s) (kvalue s)"
  from lt obtain n where n: "lastword s - (?wo + 1) = Suc n" by (cases "lastword s - (?wo + 1)") simp_all
  hence n2: "lastword s - Suc (Suc ?wo) = n" by simp
  have up: "upper_value s = unat (narr s (?wo + 1)) + 2 ^ 64 * words_value (narr s) (?wo + 2) n"
    unfolding upper_value_def n by simp
  have "upper_value (reveal s) = words_value ((narr s)(?wo + 1 := ucast ?v)) (?wo + 2) n"
    unfolding upper_value_def by (simp add: reveal_def n2)
  also have "\<dots> = words_value (narr s) (?wo + 2) n"
    by (rule words_value_upd_below) simp
  finally have up': "upper_value (reveal s) = words_value (narr s) (?wo + 2) n" .
  have "tracked (reveal s) =
          unat (ucast ?v :: u64) + 2 ^ 64 * (unat (cvalue s) * words_value (narr s) (?wo + 2) n +
             unat (ucast (drop_bit 64 ?v) :: u64))"
    unfolding tracked_def up' by (simp add: reveal_def)
  also have "\<dots> = (unat (ucast ?v :: u64) + 2 ^ 64 * unat (ucast (drop_bit 64 ?v) :: u64)) +
          2 ^ 64 * (unat (cvalue s) * words_value (narr s) (?wo + 2) n)"
    by (simp only: distrib_left add.assoc add.commute)
  also have "\<dots> = (unat (narr s (?wo + 1)) * unat (cvalue s) + unat (kvalue s)) +
          2 ^ 64 * (unat (cvalue s) * words_value (narr s) (?wo + 2) n)"
    by (simp only: mul_add_split)
  also have "\<dots> = unat (cvalue s) * upper_value s + unat (kvalue s)"
    unfolding up by (simp only: distrib_left mult.assoc mult.commute mult.left_commute add.assoc add.commute add.left_commute)
  finally have t': "tracked (reveal s) = unat (cvalue s) * upper_value s + unat (kvalue s)" .
  have "(2::nat) ^ (64 - 63) = 2" by simp
  hence "tracked s = 2 * (unat (cvalue s) * upper_value s + unat (kvalue s))"
    using tracked_shape [OF j] unfolding w0 j63 by simp
  with t' show "tracked (reveal s) = tracked s div 2" by simp
  show "cursor_ok (reveal s)"
    using lt rng by (intro cursor_okI [of 0]) (simp_all add: reveal_def)
qed

section \<open>The lazy evaluation triples and increments the tracked value\<close>

lemma unat_triple_cvalue: "c \<le> MAX_CVALUE \<Longrightarrow> unat (triple_cvalue c) = 3 * unat c"
  by (simp add: triple_cvalue_def MAX_CVALUE_def unat_word_ariths word_le_nat_alt)

lemma unat_triple_kvalue:
  "k \<le> MAX_KVALUE \<Longrightarrow> unat carry \<le> 2 \<Longrightarrow> unat (triple_kvalue k carry) = 3 * unat k + unat carry"
  by (simp add: triple_kvalue_def MAX_KVALUE_def unat_word_ariths word_le_nat_alt)

lemma lazy_algebra:
  fixes a b q Y :: nat
  shows "3 * (a * q) + a + a * b * (3 * Y) = a * (3 * (q + b * Y) + 1)"
  by (simp add: algebra_simps)

lemma lazy_tracked:
  assumes ok: "cursor_ok s" and od: "\<not> is_even s" and g: "guard s"
  shows "tracked (lazy_update s) = 3 * tracked s + 1"
    and "cursor_ok (lazy_update s)"
proof -
  from ok obtain j where j: "j < 64" "bitmask s = 2 ^ j"
    and dv: "2 ^ j dvd unat (narr s (wordoffset s))"
    and rng: "wordoffset s < lastword s" "lastword s \<le> SCRATCHPAD div 8"
    by (rule cursor_okD)
  let ?w = "narr s (wordoffset s)"
  let ?Y = "unat (cvalue s) * upper_value s + unat (kvalue s)"
  let ?ca = "unat (lazy_carry ?w (bitmask s))"
  let ?w' = "unat (lazy_word ?w (bitmask s))"
  have dvm: "unat (bitmask s) dvd unat ?w" using dv by (simp add: j unat_two_power)
  have um: "unat (bitmask s) = 2 ^ j" by (simp add: j unat_two_power)
  have lw: "3 * unat ?w + 2 ^ j = ?w' + ?ca * 2 ^ 64"
    using lazy_word_carry [OF j dvm] unfolding um .
  from g have c3: "unat (triple_cvalue (cvalue s)) = 3 * unat (cvalue s)"
    by (simp add: guard_def unat_triple_cvalue)
  from g have k3: "unat (triple_kvalue (kvalue s) (lazy_carry ?w (bitmask s))) = 3 * unat (kvalue s) + ?ca"
    by (simp add: guard_def unat_triple_kvalue lazy_carry_le2)
  have up: "upper_value (lazy_update s) = upper_value s"
    unfolding upper_value_def lazy_update_def Let_def
    by (simp add: words_value_upd_below)
  have sp: "(2::nat) ^ 64 = 2 ^ j * 2 ^ (64 - j)" using j(1) by (simp flip: power_add)
  from dv obtain q where q: "unat ?w = 2 ^ j * q" ..
  have t: "tracked s = q + 2 ^ (64 - j) * ?Y"
    using tracked_shape [OF j] q by simp
  have "?w' + 2 ^ 64 * (3 * unat (cvalue s) * upper_value s + (3 * unat (kvalue s) + ?ca))
          = (?w' + ?ca * 2 ^ 64) + 2 ^ 64 * (3 * ?Y)"
    by (simp only: distrib_left mult.assoc mult.commute mult.left_commute add.assoc add.commute add.left_commute)
  also have "\<dots> = 3 * unat ?w + 2 ^ j + 2 ^ 64 * (3 * ?Y)" by (simp only: lw)
  also have "\<dots> = 2 ^ j * (3 * (q + 2 ^ (64 - j) * ?Y) + 1)"
    unfolding q sp by (rule lazy_algebra)
  finally have num: "?w' + 2 ^ 64 * (3 * unat (cvalue s) * upper_value s + (3 * unat (kvalue s) + ?ca))
          = 2 ^ j * (3 * tracked s + 1)" unfolding t .
  have "tracked (lazy_update s) =
          (?w' + 2 ^ 64 * (3 * unat (cvalue s) * upper_value s + (3 * unat (kvalue s) + ?ca))) div 2 ^ j"
    unfolding tracked_def up
    by (simp add: lazy_update_def Let_def c3 k3 um)
  also have "\<dots> = 3 * tracked s + 1" unfolding num by simp
  finally show "tracked (lazy_update s) = 3 * tracked s + 1" .
  have "2 ^ j dvd 3 * unat ?w + 2 ^ j" using dv by simp
  hence "2 ^ j dvd ?w' + ?ca * 2 ^ 64" by (simp only: lw)
  moreover have "2 ^ j dvd ?ca * (2::nat) ^ 64" unfolding sp by simp
  ultimately have "2 ^ j dvd ?w'" by (simp only: dvd_add_left_iff)
  thus "cursor_ok (lazy_update s)"
    using j rng by (intro cursor_okI [of j]) (simp_all add: lazy_update_def Let_def)
qed

section \<open>The window shift\<close>

lemma compact_cases:
  assumes "compact s = Inr s'"
  shows "s' = s \<or> (s' = shifted s \<and> wordoffset s \<le> lastword s \<and> lastword s \<le> SCRATCHPAD div 8)"
  using assms by (auto simp: compact_def shifted_def split: if_splits)

lemma shifted_buffer_value:
  assumes "wordoffset s \<le> lastword s"
  shows "buffer_value (shifted s) = buffer_value s"
proof -
  have "words_value (narr (shifted s)) 0 (lastword s - wordoffset s) =
        words_value (narr s) (wordoffset s) (lastword s - wordoffset s)"
    by (rule words_value_cong) (simp add: shifted_def)
  thus ?thesis by (simp add: buffer_value_def shifted_def)
qed

lemma shifted_tracked:
  assumes "wordoffset s < lastword s"
  shows "tracked (shifted s) = tracked s" and "narr (shifted s) 0 = narr s (wordoffset s)"
proof -
  show w: "narr (shifted s) 0 = narr s (wordoffset s)" using assms by (simp add: shifted_def)
  have "words_value (narr (shifted s)) (0 + 1) (lastword s - wordoffset s - 1) =
        words_value (narr s) (wordoffset s + 1) (lastword s - wordoffset s - 1)"
    by (rule words_value_cong) (auto simp: shifted_def)
  hence "upper_value (shifted s) = upper_value s"
    by (simp add: upper_value_def shifted_def)
  thus "tracked (shifted s) = tracked s"
    unfolding tracked_def using w by (simp add: shifted_def)
qed

lemma compact_tracked:
  assumes "cursor_ok s" "compact s = Inr s'"
  shows "tracked s' = tracked s" and "cursor_ok s'"
    and "cvalue s' = cvalue s" and "kvalue s' = kvalue s"
proof -
  from assms(1) have lt: "wordoffset s < lastword s" by (simp add: cursor_ok_def)
  from compact_cases [OF assms(2)] show "tracked s' = tracked s"
    using shifted_tracked(1) [OF lt] by auto
  from compact_cases [OF assms(2)] show "cvalue s' = cvalue s" "kvalue s' = kvalue s"
    by (auto simp: shifted_def)
  from compact_cases [OF assms(2)] show "cursor_ok s'"
  proof
    assume "s' = s" with assms(1) show ?thesis by simp
  next
    assume a: "s' = shifted s \<and> wordoffset s \<le> lastword s \<and> lastword s \<le> SCRATCHPAD div 8"
    have "narr (shifted s) (wordoffset (shifted s)) = narr s (wordoffset s)"
      using shifted_tracked(2) [OF lt] by (simp add: shifted_def)
    moreover from a have "lastword s - wordoffset s \<le> SCRATCHPAD div 8" by arith
    ultimately show ?thesis
      using assms(1) lt a unfolding cursor_ok_def by (simp add: shifted_def)
  qed
qed

lemma buffer_value_tracked:
  assumes "wordoffset s < lastword s" "cvalue s = 1" "kvalue s = 0"
  shows "buffer_value s = tracked s"
proof -
  from assms(1) obtain n where n: "lastword s - wordoffset s = Suc n"
    by (cases "lastword s - wordoffset s") simp_all
  hence n': "lastword s - (wordoffset s + 1) = n" by simp
  show ?thesis
    unfolding buffer_value_def tracked_def upper_value_def n n' assms(2,3) by simp
qed

section \<open>The actualization keeps the tracked value\<close>

lemma actualizeE:
  assumes "actualize s = Inr s'"
  obtains mem k mem' lw clz ctz s2 where
    "actualize_loop (wordoffset s + 1) (lastword s) (cvalue s) (narr s) (kvalue s) = Inr (mem, k)"
    "carry_out mem (lastword s) k = Inr (mem', lw)"
    "1 \<le> lw" "lw \<le> SCRATCHPAD div 8" "builtin_clzll (mem' (lw - 1)) = Inr clz"
    "builtin_ctzll (bitmask s) = Inr ctz"
    "compact (s\<lparr>narr := mem', lastword := lw, cvalue := 1, kvalue := 0,
       bitsize := word_of_int ((int lw - 0 - 1) * 64 + 64 - int clz - int ctz)\<rparr>) = Inr s2"
    "s' = report s2"
  using assms unfolding actualize_def
  by (auto simp: bind_err_Inr_iff split: if_splits)

lemma carry_out_value:
  assumes "carry_out mem lw k = Inr (mem', lw')" "p \<le> lw"
  shows "words_value mem' p (lw' - p) = words_value mem p (lw - p) + 2 ^ (64 * (lw - p)) * unat k"
    and "lw \<le> lw'" and "lw \<le> SCRATCHPAD div 8 \<Longrightarrow> lw' \<le> SCRATCHPAD div 8"
    and "\<forall>i<lw. mem' i = mem i"
proof -
  show "words_value mem' p (lw' - p) = words_value mem p (lw - p) + 2 ^ (64 * (lw - p)) * unat k"
  proof (cases "k = 0")
    case True
    with assms show ?thesis by (simp add: carry_out_def)
  next
    case False
    with assms(1) have m: "mem' = mem(lw := k)" and l: "lw' = lw + 1"
      by (auto simp: carry_out_def split: if_splits)
    from assms(2) have "lw' - p = Suc (lw - p)" unfolding l by simp
    hence "words_value mem' p (lw' - p) =
             words_value mem' p (lw - p) + 2 ^ (64 * (lw - p)) * unat (mem' (p + (lw - p)))"
      by (simp only: words_value_snoc)
    also have "words_value mem' p (lw - p) = words_value mem p (lw - p)"
      unfolding m using assms(2) by (intro words_value_upd_above) simp
    also have "mem' (p + (lw - p)) = k" unfolding m using assms(2) by simp
    finally show ?thesis .
  qed
  show "lw \<le> lw'" using assms(1) by (auto simp: carry_out_def split: if_splits)
  show "lw \<le> SCRATCHPAD div 8 \<Longrightarrow> lw' \<le> SCRATCHPAD div 8"
    using assms(1) by (auto simp: carry_out_def split: if_splits)
  show "\<forall>i<lw. mem' i = mem i" using assms(1) by (auto simp: carry_out_def split: if_splits)
qed

lemma report_fields:
  "narr (report s) = narr s" "wordoffset (report s) = wordoffset s"
  "bitmask (report s) = bitmask s" "lastword (report s) = lastword s"
  "cvalue (report s) = cvalue s" "kvalue (report s) = kvalue s"
  "bitsize (report s) = bitsize s" "steps (report s) = steps s"
  "divsteps (report s) = divsteps s" "mulsteps (report s) = mulsteps s"
  by (simp_all add: report_def)

lemma report_tracked: "tracked (report s) = tracked s" "cursor_ok (report s) = cursor_ok s"
  by (simp_all add: tracked_def upper_value_def cursor_ok_def report_fields)

lemma actualize_tracked:
  assumes ok: "cursor_ok s" and res: "actualize s = Inr s'"
  shows "tracked s' = tracked s" and "cursor_ok s'" and "cvalue s' = 1" and "kvalue s' = 0"
proof -
  from res obtain mem k mem' lw clz ctz s2 where
    loop: "actualize_loop (wordoffset s + 1) (lastword s) (cvalue s) (narr s) (kvalue s) = Inr (mem, k)"
    and co: "carry_out mem (lastword s) k = Inr (mem', lw)"
    and lw: "1 \<le> lw" "lw \<le> SCRATCHPAD div 8"
    and cp: "compact (s\<lparr>narr := mem', lastword := lw, cvalue := 1, kvalue := 0,
       bitsize := word_of_int ((int lw - 0 - 1) * 64 + 64 - int clz - int ctz)\<rparr>) = Inr s2"
    and s': "s' = report s2"
    by (rule actualizeE)
  let ?s1 = "s\<lparr>narr := mem', lastword := lw, cvalue := 1, kvalue := 0,
       bitsize := word_of_int ((int lw - 0 - 1) * 64 + 64 - int clz - int ctz)\<rparr>"
  let ?p = "wordoffset s + 1"
  from ok have rng: "wordoffset s < lastword s" "lastword s \<le> SCRATCHPAD div 8"
    by (simp_all add: cursor_ok_def)
  hence ple: "?p \<le> lastword s" by simp
  from actualize_loop_value [OF loop ple]
  have lv: "words_value mem ?p (lastword s - ?p) + 2 ^ (64 * (lastword s - ?p)) * unat k =
             unat (cvalue s) * words_value (narr s) ?p (lastword s - ?p) + unat (kvalue s)"
    and fr: "\<forall>i. i < ?p \<or> lastword s \<le> i \<longrightarrow> mem i = narr s i" by simp_all
  from carry_out_value [OF co ple]
  have cv: "words_value mem' ?p (lw - ?p) =
              words_value mem ?p (lastword s - ?p) + 2 ^ (64 * (lastword s - ?p)) * unat k"
    and mono: "lastword s \<le> lw" and fr': "\<forall>i<lastword s. mem' i = mem i" by simp_all
  have w0: "mem' (wordoffset s) = narr s (wordoffset s)" using fr fr' rng by simp
  have up: "upper_value ?s1 = unat (cvalue s) * upper_value s + unat (kvalue s)"
    unfolding upper_value_def using cv lv by simp
  have t1: "tracked ?s1 = tracked s"
    unfolding tracked_def up by (simp add: w0)
  have ok1: "cursor_ok ?s1"
    using ok w0 mono lw rng unfolding cursor_ok_def by simp
  from compact_tracked [OF ok1 cp] t1
  have "tracked s2 = tracked s" "cursor_ok s2" "cvalue s2 = 1" "kvalue s2 = 0" by simp_all
  thus "tracked s' = tracked s" and "cursor_ok s'" and "cvalue s' = 1" and "kvalue s' = 0"
    unfolding s' by (simp_all add: report_tracked report_fields)
qed

lemma refresh_bitsize_tracked:
  assumes "cursor_ok s" "refresh_bitsize s = Inr s'"
  shows "tracked s' = tracked s" and "state_ok s'" and "cvalue s' = cvalue s" and "kvalue s' = kvalue s"
proof -
  from assms(2) have eq: "s' = s \<and> wordoffset s + 1 \<noteq> lastword s \<or>
      (\<exists>b. s' = s\<lparr>bitsize := b\<rparr> \<and> narr s (wordoffset s) \<noteq> 0)"
    by (auto simp: refresh_bitsize_def bind_err_Inr_iff builtin_clzll_def split: if_splits)
  thus "tracked s' = tracked s" by (auto simp: tracked_def upper_value_def)
  from eq show "cvalue s' = cvalue s" "kvalue s' = kvalue s" by auto
  from eq assms(1) show "state_ok s'" by (auto simp: state_ok_def cursor_ok_def)
qed

section \<open>One iteration, and executions\<close>

lemma even_branch_tracked:
  assumes "state_ok s" "is_even s"
  shows "\<exists>s'. even_branch s = Inr s' \<and> tracked s' = tracked s div 2 \<and> cursor_ok s' \<and>
              cvalue s' = cvalue s"
proof (cases "bitmask s = MSB64")
  case True
  from even_reveal [OF assms True] show ?thesis by (simp add: reveal_def)
next
  case False
  from assms(1) have "cursor_ok s" by (simp add: state_ok_def)
  from even_shift [OF this assms(2) False] show ?thesis by simp
qed

lemma branch_tracked:
  assumes state_ok: "state_ok s" and res: "branch s = Inr s1"
  shows "tracked s1 = eager_step (event_of s) (tracked s)" and "cursor_ok s1"
proof -
  from state_ok have ok: "cursor_ok s" by (simp add: state_ok_def)
  have "tracked s1 = eager_step (event_of s) (tracked s) \<and> cursor_ok s1"
  proof (cases "is_even s")
    case True
    with even_branch_tracked [OF state_ok True] res show ?thesis
      by (auto simp: branch_def event_of_def)
  next
    case odd: False
    show ?thesis
    proof (cases "guard s")
      case g: True
      note lz = lazy_tracked [OF ok odd g]
      show ?thesis
      proof (cases "hail_mary (lazy_update s)")
        case True
        with odd g res have "actualize (lazy_update s) = Inr s1"
          by (simp add: branch_def Let_def)
        from actualize_tracked(1,2) [OF lz(2) this] lz(1) odd g True show ?thesis
          by (simp add: event_of_def)
      next
        case False
        with odd g res have "s1 = lazy_update s" by (simp add: branch_def Let_def)
        with lz odd g False show ?thesis by (simp add: event_of_def)
      qed
    next
      case False
      with odd res have "actualize s = Inr s1" by (simp add: branch_def)
      from actualize_tracked(1,2) [OF ok this] odd False show ?thesis
        by (simp add: event_of_def)
    qed
  qed
  thus "tracked s1 = eager_step (event_of s) (tracked s)" and "cursor_ok s1" by simp_all
qed

lemma stepE:
  assumes "step s = Inr s'"
  obtains s1 where "branch s = Inr s1" "refresh_bitsize s1 = Inr s'"
  using assms unfolding step_def by (auto simp: bind_err_Inr_iff split: if_splits)

lemma step_tracked:
  assumes "state_ok s" "step s = Inr s'"
  shows "tracked s' = eager_step (event_of s) (tracked s)" and "state_ok s'"
proof -
  from assms(2) obtain s1 where b: "branch s = Inr s1" and r: "refresh_bitsize s1 = Inr s'"
    by (rule stepE)
  from branch_tracked [OF assms(1) b] refresh_bitsize_tracked(1,2) [OF _ r]
  show "tracked s' = eager_step (event_of s) (tracked s)" and "state_ok s'" by simp_all
qed

lemma eager_snoc: "eager (evs @ [e]) x = eager_step e (eager evs x)"
  by (simp add: eager_def)

lemma exec_tracked:
  assumes "exec s0 evs s" "state_ok s0"
  shows "state_ok s \<and> tracked s = eager evs (tracked s0)"
  using assms
proof (induction rule: exec.induct)
  case (exec_start s0)
  thus ?case by (simp add: eager_def)
next
  case (exec_step s0 evs s s')
  hence "state_ok s" and t: "tracked s = eager evs (tracked s0)" by simp_all
  from step_tracked [OF \<open>state_ok s\<close> exec_step.hyps(3)] t show ?case
    by (simp add: eager_snoc)
qed

lemma step_flushed:
  assumes "step s = Inr s'" "event_of s = LazyFlush \<or> event_of s = Flush" "cursor_ok s"
  shows "cvalue s' = 1 \<and> kvalue s' = 0"
proof -
  from assms(1) obtain s1 where b: "branch s = Inr s1" and r: "refresh_bitsize s1 = Inr s'"
    by (rule stepE)
  from assms(2) have "\<not> is_even s" by (auto simp: event_of_def split: if_splits)
  have "cvalue s1 = 1 \<and> kvalue s1 = 0 \<and> cursor_ok s1"
  proof (cases "guard s")
    case True
    with assms(2) \<open>\<not> is_even s\<close> have hm: "hail_mary (lazy_update s)"
      by (auto simp: event_of_def split: if_splits)
    with True \<open>\<not> is_even s\<close> b have a: "actualize (lazy_update s) = Inr s1"
      by (simp add: branch_def Let_def)
    from lazy_tracked(2) [OF assms(3) \<open>\<not> is_even s\<close> True] have "cursor_ok (lazy_update s)" .
    from actualize_tracked(2,3,4) [OF this a] show ?thesis by simp
  next
    case False
    with \<open>\<not> is_even s\<close> b have a: "actualize s = Inr s1" by (simp add: branch_def)
    from actualize_tracked(2,3,4) [OF assms(3) a] show ?thesis by simp
  qed
  with refresh_bitsize_tracked(3,4) [OF _ r] show ?thesis by simp
qed

lemma fresh_state_wf:
  "0 < lw \<Longrightarrow> lw \<le> SCRATCHPAD div 8 \<Longrightarrow> state_ok (fresh_state mem lw bs)"
  unfolding state_ok_def cursor_ok_def fresh_state_def
  by (auto simp: MSB64_def intro: exI [of _ 0])

lemma fresh_state_tracked:
  "0 < lw \<Longrightarrow> tracked (fresh_state mem lw bs) = buffer_value (fresh_state mem lw bs)"
  by (rule buffer_value_tracked [symmetric]) (simp_all add: fresh_state_def)

section \<open>Instances and the claims about single iterations\<close>

lemma cap_value: "SCRATCHPAD div 8 = 51000000"
  by (simp add: SCRATCHPAD_def FARPAD_def NWORDS_def)

lemma clz_2: "builtin_clzll 2 = Inr 62"
  by (simp add: builtin_clzll_def bit_length.simps)

lemma ctz_1: "builtin_ctzll 1 = Inr 0"
  by (simp add: builtin_ctzll_def trailing_zeros.simps)

text \<open>C3 (halving). In every state of an execution from a starting buffer whose tracked
  value \<open>v\<close> is even, the test of line 95 selects the even branch, the even branch succeeds,
  and the state it yields has the tracked value \<open>v div 2\<close>; this covers the shift of the mask
  and the move of the cursor to the next word.\<close>

theorem even_branch_halves:
  assumes "0 < lw" and "lw \<le> SCRATCHPAD div 8"
    and "exec (fresh_state mem lw bs) evs s"
    and "even (tracked s)"
  shows "is_even s \<and> (\<exists>s'. even_branch s = Inr s' \<and> tracked s' = tracked s div 2)"
proof -
  have "state_ok (fresh_state mem lw bs)" using assms(1,2) by (rule fresh_state_wf)
  with exec_tracked [OF assms(3)] have ok: "state_ok s" by simp
  hence "cursor_ok s" by (simp add: state_ok_def)
  then obtain j where j: "j < 64" "bitmask s = 2 ^ j" by (rule cursor_okD)
  from assms(4) is_even_tracked [OF j] have ev: "is_even s" by simp
  with even_branch_tracked [OF ok ev] show ?thesis by blast
qed

text \<open>An instance of C3: the one-word value 6 becomes 3.\<close>

theorem even_branch_halves_witness:
  "(0::nat) < 1 \<and> 1 \<le> SCRATCHPAD div 8 \<and>
   exec (fresh_state (\<lambda>i. 6) 1 3) [] (fresh_state (\<lambda>i. 6) 1 3) \<and>
   tracked (fresh_state (\<lambda>i. 6) 1 3) = 6 \<and>
   (\<exists>s'. even_branch (fresh_state (\<lambda>i. 6) 1 3) = Inr s' \<and> tracked s' = 3)"
proof -
  have h1: "(0::nat) < 1" by simp
  have h2: "(1::nat) \<le> SCRATCHPAD div 8" by (simp add: cap_value)
  have h3: "exec (fresh_state (\<lambda>i. 6) 1 3) [] (fresh_state (\<lambda>i. 6) 1 3)" by (rule exec_start)
  have t: "tracked (fresh_state (\<lambda>i. 6) 1 3) = 6"
    by (simp add: tracked_def upper_value_def fresh_state_def)
  hence h4: "even (tracked (fresh_state (\<lambda>i. 6) 1 3))" by simp
  from even_branch_halves [OF h1 h2 h3 h4] h1 h2 h3 t show ?thesis by simp
qed

lemma actualize_cvalue:
  assumes "actualize s = Inr s'"
  shows "cvalue s' = 1" and "kvalue s' = 0"
proof -
  from assms obtain mem' lw clz ctz s2 where
    cp: "compact (s\<lparr>narr := mem', lastword := lw, cvalue := 1, kvalue := 0,
       bitsize := word_of_int ((int lw - 0 - 1) * 64 + 64 - int clz - int ctz)\<rparr>) = Inr s2"
    and s': "s' = report s2"
    by (rule actualizeE)
  from compact_cases [OF cp] have "cvalue s2 = 1 \<and> kvalue s2 = 0" by (auto simp: shifted_def)
  thus "cvalue s' = 1" and "kvalue s' = 0" unfolding s' by (simp_all add: report_fields)
qed

lemma refresh_bitsize_cvalue:
  "refresh_bitsize s = Inr s' \<Longrightarrow> cvalue s' = cvalue s"
  by (auto simp: refresh_bitsize_def bind_err_Inr_iff split: if_splits)

lemma even_branch_cvalue:
  "even_branch s = Inr s' \<Longrightarrow> cvalue s' = cvalue s"
  by (auto simp: even_branch_def reveal_def split: if_splits)

lemma step_cvalue:
  assumes "step s = Inr s'"
  shows "cvalue s' =
           (case event_of s of EvenStep \<Rightarrow> cvalue s | LazyStep \<Rightarrow> triple_cvalue (cvalue s)
            | LazyFlush \<Rightarrow> 1 | Flush \<Rightarrow> 1)"
proof -
  from assms obtain s1 where b: "branch s = Inr s1" and r: "refresh_bitsize s1 = Inr s'"
    by (rule stepE)
  have "cvalue s1 =
           (case event_of s of EvenStep \<Rightarrow> cvalue s | LazyStep \<Rightarrow> triple_cvalue (cvalue s)
            | LazyFlush \<Rightarrow> 1 | Flush \<Rightarrow> 1)"
    using b
    by (auto simp: branch_def event_of_def Let_def even_branch_cvalue actualize_cvalue lazy_update_def
        split: if_splits)
  with refresh_bitsize_cvalue [OF r] show ?thesis by simp
qed

lemma pending_snoc: "pending (evs @ [e]) = pending_step (pending evs) e"
  by (simp add: pending_def)

lemma three_power_le:
  fixes g :: nat
  assumes "(3::nat) ^ g \<le> 3 ^ 39" shows "g \<le> 39"
  using assms by (simp only: power_increasing_iff) 

lemma exec_cvalue:
  assumes "exec s0 evs s" "cvalue s0 = 1"
  shows "unat (cvalue s) = 3 ^ pending evs \<and> pending evs \<le> 40"
  using assms
proof (induction rule: exec.induct)
  case (exec_start s0)
  thus ?case by (simp add: pending_def)
next
  case (exec_step s0 evs s s')
  hence c: "unat (cvalue s) = 3 ^ pending evs" and le: "pending evs \<le> 40" by simp_all
  note sc = step_cvalue [OF exec_step.hyps(3)]
  show ?case
  proof (cases "event_of s")
    case EvenStep
    with sc c le show ?thesis by (simp add: pending_snoc)
  next
    case LazyStep
    hence g: "guard s" by (auto simp: event_of_def split: if_splits)
    hence cm: "cvalue s \<le> MAX_CVALUE" by (simp add: guard_def)
    hence "unat (cvalue s) \<le> 3 ^ 39" by (simp add: word_le_nat_alt MAX_CVALUE_def)
    hence "pending evs \<le> 39" unfolding c by (rule three_power_le)
    moreover have "unat (cvalue s') = 3 * unat (cvalue s)"
      using sc LazyStep unat_triple_cvalue [OF cm] by simp
    ultimately show ?thesis using LazyStep c by (simp add: pending_snoc)
  next
    case LazyFlush
    with sc show ?thesis by (simp add: pending_snoc)
  next
    case Flush
    with sc show ?thesis by (simp add: pending_snoc)
  qed
qed

lemma three_power_fits:
  fixes g :: nat
  shows "(3 * 3 ^ g < (2::nat) ^ 64) = (g \<le> 39)"
proof
  assume a: "3 * 3 ^ g < (2::nat) ^ 64"
  show "g \<le> 39"
  proof (rule ccontr)
    assume "\<not> g \<le> 39"
    hence "40 \<le> g" by simp
    hence "(3::nat) ^ 40 \<le> 3 ^ g" by (simp only: power_increasing_iff)
    with a show False by simp
  qed
next
  assume "g \<le> 39"
  hence "(3::nat) ^ g \<le> 3 ^ 39" by (simp only: power_increasing_iff)
  thus "3 * 3 ^ g < (2::nat) ^ 64" by simp
qed

lemma three_power_gap:
  fixes g m :: nat
  shows "\<not> (3 ^ m < (3::nat) ^ g \<and> (3::nat) ^ g < 3 ^ Suc m)"
proof
  assume "3 ^ m < (3::nat) ^ g \<and> (3::nat) ^ g < 3 ^ Suc m"
  hence "m < g" and "g < Suc m" by (simp_all only: power_strict_increasing_iff)
  thus False by simp
qed

text \<open>C9 (\<open>cvalue\<close> is a power of three). In every state of an execution from a starting
  buffer, \<open>cvalue = 3^s\<close> where \<open>s\<close> is the number of lazy evaluations since the last
  actualization (or since the start), and \<open>s \<le> 40\<close>. \<open>MAX_CVALUE\<close> is \<open>3^39\<close>, the guard
  \<open>cvalue \<le> MAX_CVALUE\<close> holds exactly when one more tripling stays below \<open>2^64\<close>, and
  \<open>cvalue\<close> is never strictly between two consecutive powers of three.\<close>

theorem cvalue_power_of_three:
  assumes "exec (fresh_state mem lw bs) evs s"
  shows "unat (cvalue s) = 3 ^ pending evs \<and> pending evs \<le> 40 \<and>
         unat MAX_CVALUE = 3 ^ 39 \<and>
         (cvalue s \<le> MAX_CVALUE) = (3 * unat (cvalue s) < 2 ^ 64) \<and>
         (\<forall>m. \<not> (3 ^ m < unat (cvalue s) \<and> unat (cvalue s) < 3 ^ Suc m))"
proof -
  have "cvalue (fresh_state mem lw bs) = 1" by (simp add: fresh_state_def)
  from exec_cvalue [OF assms this]
  have c: "unat (cvalue s) = 3 ^ pending evs" and le: "pending evs \<le> 40" by simp_all
  have m: "unat MAX_CVALUE = 3 ^ 39" by (simp add: MAX_CVALUE_def)
  have "(cvalue s \<le> MAX_CVALUE) = ((3::nat) ^ pending evs \<le> 3 ^ 39)"
    by (simp only: word_le_nat_alt c m)
  also have "\<dots> = (pending evs \<le> 39)" by (simp only: power_increasing_iff)
  also have "\<dots> = (3 * unat (cvalue s) < 2 ^ 64)" unfolding c by (simp only: three_power_fits)
  finally have g: "(cvalue s \<le> MAX_CVALUE) = (3 * unat (cvalue s) < 2 ^ 64)" .
  have "\<forall>m. \<not> (3 ^ m < unat (cvalue s) \<and> unat (cvalue s) < 3 ^ Suc m)"
    unfolding c using three_power_gap by blast
  with c le m g show ?thesis by blast
qed


lemma step_seven:
  "step (fresh_state (\<lambda>i. 7) 1 3) =
     Inr \<lparr>narr = (\<lambda>i. 7)(0 := 22), wordoffset = 0, bitmask = 1, lastword = 1, bitsize = 5,
          cvalue = 3, kvalue = 0, steps = 1, divsteps = 0, mulsteps = 1, laststep = 0\<rparr>"
  by (simp add: step_def branch_def is_even_def fresh_state_def guard_def MAX_CVALUE_def
      MAX_KVALUE_def lazy_update_def hail_mary_def triple_kvalue_def triple_cvalue_def
      lazy_word_def lazy_carry_def lazy_twice_def bind_err_def cap_value
      builtin_clzll_def builtin_ctzll_def bit_length.simps trailing_zeros.simps
      word_le_nat_alt word_less_nat_alt refresh_bitsize_def)

lemma event_seven: "event_of (fresh_state (\<lambda>i. 7) 1 3) = LazyStep"
  by (simp add: event_of_def is_even_def fresh_state_def guard_def MAX_CVALUE_def MAX_KVALUE_def
      lazy_update_def hail_mary_def triple_kvalue_def lazy_carry_def lazy_word_def lazy_twice_def
      word_le_nat_alt word_less_nat_alt)

text \<open>An instance of C9: one lazy evaluation from the value 7.\<close>

theorem cvalue_power_of_three_witness:
  "exec (fresh_state (\<lambda>i. 7) 1 3) [LazyStep]
     \<lparr>narr = (\<lambda>i. 7)(0 := 22), wordoffset = 0, bitmask = 1, lastword = 1, bitsize = 5,
      cvalue = 3, kvalue = 0, steps = 1, divsteps = 0, mulsteps = 1, laststep = 0\<rparr> \<and>
   pending [LazyStep] = 1 \<and>
   unat (cvalue \<lparr>narr = (\<lambda>i. 7)(0 := 22), wordoffset = 0, bitmask = 1, lastword = 1, bitsize = 5,
      cvalue = 3, kvalue = 0, steps = 1, divsteps = 0, mulsteps = 1, laststep = 0\<rparr>) =
     3 ^ pending [LazyStep]"
proof -
  let ?s0 = "fresh_state (\<lambda>i. 7) 1 3"
  have "bitsize ?s0 \<noteq> 1" by (simp add: fresh_state_def)
  from exec_step [OF exec_start this step_seven]
  have h: "exec ?s0 [LazyStep]
     \<lparr>narr = (\<lambda>i. 7)(0 := 22), wordoffset = 0, bitmask = 1, lastword = 1, bitsize = 5,
      cvalue = 3, kvalue = 0, steps = 1, divsteps = 0, mulsteps = 1, laststep = 0\<rparr>"
    by (simp only: event_seven append_Nil)
  have p: "pending [LazyStep] = 1" by (simp add: pending_def)
  from cvalue_power_of_three [OF h] h p show ?thesis by blast
qed

text \<open>C5, as stated: the threshold of \<open>cvalue\<close> is \<open>floor((2^64 - 1) / 3)\<close>. It is not:
  \<open>MAX_CVALUE\<close> is \<open>3^39 = 4052555153018976267\<close>, and the floor is
  \<open>6148914691236517205\<close>.\<close>

theorem threshold_counterexample: "unat MAX_CVALUE \<noteq> (2 ^ 64 - 1) div 3"
  by (simp add: MAX_CVALUE_def)

text \<open>C5, amended: \<open>MAX_CVALUE\<close> is \<open>3^39\<close>, the largest power of three whose triple fits
  in 64 bits; \<open>MAX_KVALUE\<close> is the largest \<open>k\<close> for which \<open>3k + 2\<close> fits in 64 bits; and in
  every state where the guard of line 124 passes, the updates of lines 128 and 134 do not
  wrap around: the new \<open>cvalue\<close> is \<open>3 * cvalue\<close> and the new \<open>kvalue\<close> is
  \<open>3 * kvalue + carry\<close> with a carry of at most 2.\<close>

theorem guard_no_overflow:
  "unat MAX_CVALUE = 3 ^ 39 \<and> (\<forall>p::nat. (3 * 3 ^ p < (2::nat) ^ 64) = (p \<le> 39)) \<and>
   (\<forall>k::nat. (3 * k + 2 < 2 ^ 64) = (k \<le> unat MAX_KVALUE)) \<and>
   (guard s \<longrightarrow>
      unat (cvalue (lazy_update s)) = 3 * unat (cvalue s) \<and>
      unat (kvalue (lazy_update s)) =
        3 * unat (kvalue s) + unat (lazy_carry (narr s (wordoffset s)) (bitmask s)) \<and>
      unat (lazy_carry (narr s (wordoffset s)) (bitmask s)) \<le> 2)"
proof (intro conjI allI impI)
  show "unat MAX_CVALUE = 3 ^ 39" by (simp add: MAX_CVALUE_def)
next
  fix p :: nat
  show "(3 * 3 ^ p < (2::nat) ^ 64) = (p \<le> 39)" by (rule three_power_fits)
next
  fix k :: nat
  show "(3 * k + 2 < 2 ^ 64) = (k \<le> unat MAX_KVALUE)" by (simp add: MAX_KVALUE_def) arith
next
  assume "guard s"
  thus "unat (cvalue (lazy_update s)) = 3 * unat (cvalue s)"
    by (simp add: guard_def lazy_update_def Let_def unat_triple_cvalue)
next
  assume "guard s"
  thus "unat (kvalue (lazy_update s)) =
        3 * unat (kvalue s) + unat (lazy_carry (narr s (wordoffset s)) (bitmask s))"
    by (simp add: guard_def lazy_update_def Let_def unat_triple_kvalue lazy_carry_le2)
next
  show "unat (lazy_carry (narr s (wordoffset s)) (bitmask s)) \<le> 2" by (rule lazy_carry_le2)
qed

text \<open>An instance of C5: the fresh state passes the guard.\<close>

theorem guard_no_overflow_witness:
  "guard (fresh_state (\<lambda>i. 7) 1 3) \<and>
   unat (cvalue (lazy_update (fresh_state (\<lambda>i. 7) 1 3))) = 3 \<and>
   unat (kvalue (lazy_update (fresh_state (\<lambda>i. 7) 1 3))) = 0"
proof -
  have g: "guard (fresh_state (\<lambda>i. 7) 1 3)"
    by (simp add: guard_def fresh_state_def MAX_CVALUE_def MAX_KVALUE_def)
  have c: "lazy_carry 7 1 = 0" by (simp add: lazy_carry_def lazy_word_def lazy_twice_def)
  from guard_no_overflow [of "fresh_state (\<lambda>i. 7) 1 3"] g c show ?thesis
    by (simp add: fresh_state_def)
qed

text \<open>C6 (compaction). Whenever the test of line 155 holds, in a state whose window
  \<open>[wordoffset, lastword)\<close> lies inside the buffer, lines 157 to 159 copy the window to the
  start of the buffer and lower \<open>wordoffset\<close> and \<open>lastword\<close> by the same offset; the integer
  the buffer holds from the cursor, the tracked value, the mask, \<open>bitsize\<close>, the pending
  transform and all counters are unchanged.\<close>

theorem compaction_preserves_value:
  assumes "SCRATCHPAD div 8 - 2 \<le> lastword s"
    and "wordoffset s \<le> lastword s" and "lastword s \<le> SCRATCHPAD div 8"
  shows "compact s = Inr (shifted s) \<and>
         buffer_value (shifted s) = buffer_value s \<and>
         (wordoffset s < lastword s \<longrightarrow> tracked (shifted s) = tracked s) \<and>
         (\<forall>i < lastword s - wordoffset s. narr (shifted s) i = narr s (wordoffset s + i)) \<and>
         wordoffset (shifted s) = 0 \<and>
         lastword (shifted s) = lastword s - wordoffset s \<and>
         bitmask (shifted s) = bitmask s \<and> bitsize (shifted s) = bitsize s \<and>
         cvalue (shifted s) = cvalue s \<and> kvalue (shifted s) = kvalue s \<and>
         steps (shifted s) = steps s \<and> divsteps (shifted s) = divsteps s \<and>
         mulsteps (shifted s) = mulsteps s \<and> laststep (shifted s) = laststep s"
proof -
  have "compact s = Inr (shifted s)" using assms by (simp add: compact_def)
  moreover have "buffer_value (shifted s) = buffer_value s"
    using assms(2) by (rule shifted_buffer_value)
  moreover have "wordoffset s < lastword s \<longrightarrow> tracked (shifted s) = tracked s"
    using shifted_tracked(1) by blast
  ultimately show ?thesis by (simp add: shifted_def)
qed

text \<open>An instance of C6: a window of two words at the end of the buffer.\<close>

theorem compaction_preserves_value_witness:
  "SCRATCHPAD div 8 - 2 \<le> lastword (fresh_state (\<lambda>i. 5) 50999999 9\<lparr>wordoffset := 50999997\<rparr>) \<and>
   compact (fresh_state (\<lambda>i. 5) 50999999 9\<lparr>wordoffset := 50999997\<rparr>) =
     Inr (shifted (fresh_state (\<lambda>i. 5) 50999999 9\<lparr>wordoffset := 50999997\<rparr>)) \<and>
   lastword (shifted (fresh_state (\<lambda>i. 5) 50999999 9\<lparr>wordoffset := 50999997\<rparr>)) = 2 \<and>
   buffer_value (shifted (fresh_state (\<lambda>i. 5) 50999999 9\<lparr>wordoffset := 50999997\<rparr>)) =
     buffer_value (fresh_state (\<lambda>i. 5) 50999999 9\<lparr>wordoffset := 50999997\<rparr>)"
proof -
  let ?s = "fresh_state (\<lambda>i. 5) 50999999 9\<lparr>wordoffset := 50999997\<rparr>"
  have h1: "SCRATCHPAD div 8 - 2 \<le> lastword ?s" by (simp add: cap_value fresh_state_def)
  have h2: "wordoffset ?s \<le> lastword ?s" by (simp add: fresh_state_def)
  have h3: "lastword ?s \<le> SCRATCHPAD div 8" by (simp add: cap_value fresh_state_def)
  have l: "lastword ?s - wordoffset ?s = 2" by (simp add: fresh_state_def)
  from compaction_preserves_value [OF h1 h2 h3] h1 l show ?thesis by simp
qed

section \<open>Bit counts\<close>

lemma bit_length_0: "bit_length 0 = 0"
  by (simp add: bit_length.simps)

lemma bit_length_pos: "0 < n \<Longrightarrow> bit_length n = Suc (bit_length (n div 2))"
  by (subst bit_length.simps) simp

lemma bit_length_upper: "n < 2 ^ bit_length n"
proof (induction n rule: bit_length.induct)
  case (1 n)
  show ?case
  proof (cases "n = 0")
    case True thus ?thesis by simp
  next
    case False
    hence "n div 2 < 2 ^ bit_length (n div 2)" by (rule "1.IH")
    hence "n < 2 * 2 ^ bit_length (n div 2)" by simp
    with False show ?thesis by (simp add: bit_length_pos)
  qed
qed

lemma bit_length_lower: "0 < n \<Longrightarrow> 2 ^ (bit_length n - 1) \<le> n"
proof (induction n rule: bit_length.induct)
  case (1 n)
  show ?case
  proof (cases "n div 2 = 0")
    case True
    with "1.prems" have "n = 1" by (simp add: div_eq_0_iff) 
    thus ?thesis by (simp add: bit_length_pos bit_length_0)
  next
    case False
    hence p: "0 < n div 2" by simp
    with "1.prems" "1.IH" have "2 ^ (bit_length (n div 2) - 1) \<le> n div 2" by simp
    hence "2 * 2 ^ (bit_length (n div 2) - 1) \<le> n" by simp
    moreover from p have "0 < bit_length (n div 2)" by (simp add: bit_length_pos)
    ultimately show ?thesis using "1.prems"
      by (simp add: bit_length_pos flip: power_Suc)
  qed
qed

lemma bit_length_eq:
  assumes "2 ^ k \<le> n" "n < 2 ^ Suc k"
  shows "bit_length n = Suc k"
proof -
  from assms(1) have pos: "0 < n" by (metis less_le_trans zero_less_numeral zero_less_power)
  have "2 ^ k < (2::nat) ^ bit_length n" using assms(1) bit_length_upper [of n] by (rule le_less_trans)
  hence a: "k < bit_length n" by (simp only: power_strict_increasing_iff)
  have "(2::nat) ^ (bit_length n - 1) < 2 ^ Suc k" using bit_length_lower [OF pos] assms(2) by simp
  hence "bit_length n - 1 < Suc k" by (simp only: power_strict_increasing_iff)
  with a show ?thesis by simp
qed

lemma bit_length_two_power: "bit_length (2 ^ k) = Suc k"
  by (rule bit_length_eq) simp_all

lemma bit_length_le_64: "bit_length (unat (w :: u64)) \<le> 64"
proof (rule ccontr)
  assume "\<not> bit_length (unat w) \<le> 64"
  hence "64 \<le> bit_length (unat w) - 1" by simp
  hence "(2::nat) ^ 64 \<le> 2 ^ (bit_length (unat w) - 1)" by (simp only: power_increasing_iff)
  moreover have "0 < unat w" using \<open>\<not> bit_length (unat w) \<le> 64\<close>
    by (cases "unat w = 0") (simp_all add: bit_length_0)
  ultimately have "2 ^ 64 \<le> unat w" using bit_length_lower [of "unat w"] by simp
  moreover have "unat w < 2 ^ 64" using unsigned_less [of w] by simp
  ultimately show False by simp
qed

lemma trailing_zeros_two_power: "trailing_zeros (2 ^ j) = j"
proof (induction j)
  case 0
  show ?case by (simp add: trailing_zeros.simps)
next
  case (Suc j)
  have "trailing_zeros (2 ^ Suc j) = Suc (trailing_zeros (2 ^ Suc j div 2))"
    by (subst trailing_zeros.simps) simp
  with Suc show ?case by simp
qed

lemma two_power_neq_0: "j < 64 \<Longrightarrow> (2 ^ j :: u64) \<noteq> 0"
  using unat_two_power [of j] by (metis power_not_zero unsigned_0 zero_neq_numeral)

lemma ctz_two_power: "j < 64 \<Longrightarrow> builtin_ctzll (2 ^ j) = Inr j"
  by (simp add: builtin_ctzll_def two_power_neq_0 unat_two_power trailing_zeros_two_power)

lemma clz_nonzero: "w \<noteq> 0 \<Longrightarrow> builtin_clzll w = Inr (64 - bit_length (unat w))"
  by (simp add: builtin_clzll_def)

lemma refresh_adjacent:
  assumes "wordoffset s + 1 = lastword s" "wordoffset s < SCRATCHPAD div 8"
    "narr s (wordoffset s) \<noteq> 0" "j < 64" "bitmask s = 2 ^ j"
  shows "refresh_bitsize s =
           Inr (s\<lparr>bitsize := word_of_int (int (bit_length (unat (narr s (wordoffset s)))) - int j)\<rparr>)"
proof -
  have "int (64 - bit_length (unat (narr s (wordoffset s)))) =
          64 - int (bit_length (unat (narr s (wordoffset s))))"
    using bit_length_le_64 [of "narr s (wordoffset s)"] by simp
  thus ?thesis using assms
    by (simp add: refresh_bitsize_def bind_err_def clz_nonzero ctz_two_power)
qed

lemma refresh_not_adjacent:
  "wordoffset s + 1 \<noteq> lastword s \<Longrightarrow> refresh_bitsize s = Inr s"
  by (simp add: refresh_bitsize_def)

lemma run_step:
  "bitsize s \<noteq> 1 \<Longrightarrow> step s = Inr s' \<Longrightarrow> run (Suc n) s = run n s'"
  by simp

lemma run_done: "bitsize s = 1 \<Longrightarrow> run n s = Some (Inr s)"
  by (cases n) simp_all

section \<open>Runs of even iterations\<close>

lemma push_bit_1_two_power: "push_bit 1 (2 ^ j :: u64) = 2 ^ Suc j"
  by (simp add: push_bit_eq_mult)

lemma is_even_dvd:
  assumes "j < 64" "bitmask s = 2 ^ j" "2 ^ Suc j dvd unat (narr s (wordoffset s))"
  shows "is_even s"
proof -
  from assms(3) obtain q where "unat (narr s (wordoffset s)) = 2 ^ Suc j * q" ..
  hence "unat (narr s (wordoffset s)) div 2 ^ j = 2 * q" by simp
  thus ?thesis by (simp add: is_even_def assms(1,2) and_bit_zero_iff)
qed

lemma branch_shift:
  assumes "j < 63" "bitmask s = 2 ^ j" "2 ^ Suc j dvd unat (narr s (wordoffset s))"
  shows "branch s = Inr (s\<lparr>bitmask := 2 ^ Suc j, steps := steps s + 1, divsteps := divsteps s + 1\<rparr>)"
proof -
  from assms(1) have j: "j < 64" by simp
  have ev: "is_even s" using j assms(2,3) by (rule is_even_dvd)
  have "bitmask s \<noteq> MSB64" using assms(1) two_power_eq_MSB64 [OF j] by (simp add: assms(2))
  thus ?thesis using ev by (simp add: branch_def even_branch_def assms(2) push_bit_1_two_power)
qed

lemma dvd_bit_length:
  assumes "w \<noteq> 0" "2 ^ m dvd unat (w :: u64)"
  shows "m < bit_length (unat w)"
proof -
  from assms(1) have "0 < unat w" by (simp add: unat_gt_0)
  with assms(2) have "2 ^ m \<le> unat w" by (rule dvd_imp_le)
  hence "(2::nat) ^ m < 2 ^ bit_length (unat w)" using bit_length_upper by (rule le_less_trans)
  thus ?thesis by (simp only: power_strict_increasing_iff)
qed

lemma run_shift_inner:
  assumes "wordoffset s + 1 \<noteq> lastword s" "wordoffset s < SCRATCHPAD div 8"
    "bitmask s = 2 ^ j" "j + n \<le> 63" "2 ^ (j + n) dvd unat (narr s (wordoffset s))"
    "bitsize s \<noteq> 1"
  shows "run (n + m) s =
           run m (s\<lparr>bitmask := 2 ^ (j + n), steps := steps s + of_nat n,
                    divsteps := divsteps s + of_nat n\<rparr>)"
  using assms
proof (induction n arbitrary: s j)
  case 0
  have "s\<lparr>bitmask := 2 ^ j, steps := steps s, divsteps := divsteps s\<rparr> = s"
    using "0.prems"(3) by simp
  thus ?case by simp
next
  case (Suc n)
  let ?s1 = "s\<lparr>bitmask := 2 ^ Suc j, steps := steps s + 1, divsteps := divsteps s + 1\<rparr>"
  from Suc.prems(4) have j: "j < 63" by simp
  have "2 ^ Suc j dvd (2::nat) ^ (j + Suc n)" by (rule le_imp_power_dvd) simp
  hence dv: "2 ^ Suc j dvd unat (narr s (wordoffset s))" using Suc.prems(5) by (rule dvd_trans)
  have b: "branch s = Inr ?s1" using j Suc.prems(3) dv by (rule branch_shift)
  have "refresh_bitsize ?s1 = Inr ?s1" using Suc.prems(1) by (intro refresh_not_adjacent) simp
  with b Suc.prems(2) have st: "step s = Inr ?s1" by (simp add: step_def bind_err_def)
  have "run (Suc n + m) s = run (n + m) ?s1" using Suc.prems(6) st by simp
  also have "\<dots> = run m (?s1\<lparr>bitmask := 2 ^ (Suc j + n), steps := steps ?s1 + of_nat n,
                    divsteps := divsteps ?s1 + of_nat n\<rparr>)"
    using Suc.prems by (intro Suc.IH) simp_all
  also have "?s1\<lparr>bitmask := 2 ^ (Suc j + n), steps := steps ?s1 + of_nat n,
                    divsteps := divsteps ?s1 + of_nat n\<rparr> =
             s\<lparr>bitmask := 2 ^ (j + Suc n), steps := steps s + of_nat (Suc n),
                    divsteps := divsteps s + of_nat (Suc n)\<rparr>"
    by (simp add: add.commute add.left_commute)
  finally show ?case .
qed

lemma small_word_neq_1:
  assumes "2 \<le> n" "n \<le> 64" shows "(word_of_nat n :: u64) \<noteq> 1"
proof
  assume "(word_of_nat n :: u64) = 1"
  hence "unat (word_of_nat n :: u64) = 1" by simp
  moreover have "unat (word_of_nat n :: u64) = n"
    using assms(2) by (simp add: unat_of_nat)
  ultimately show False using assms(1) by simp
qed

lemma step_shift_last:
  assumes "wordoffset s + 1 = lastword s" "wordoffset s < SCRATCHPAD div 8"
    "bitmask s = 2 ^ j" "j < 63" "2 ^ Suc j dvd unat (narr s (wordoffset s))"
    "narr s (wordoffset s) \<noteq> 0"
  shows "step s = Inr (s\<lparr>bitmask := 2 ^ Suc j,
               bitsize := word_of_nat (bit_length (unat (narr s (wordoffset s))) - Suc j),
               steps := steps s + 1, divsteps := divsteps s + 1\<rparr>)"
proof -
  let ?s1 = "s\<lparr>bitmask := 2 ^ Suc j, steps := steps s + 1, divsteps := divsteps s + 1\<rparr>"
  let ?bl = "bit_length (unat (narr s (wordoffset s)))"
  have b: "branch s = Inr ?s1" using assms(4,3,5) by (rule branch_shift)
  have "Suc j < ?bl" using assms(6,5) by (rule dvd_bit_length)
  hence "word_of_int (int ?bl - int (Suc j)) = (word_of_nat (?bl - Suc j) :: u64)"
    by (simp add: of_nat_diff)
  moreover have "refresh_bitsize ?s1 = Inr (?s1\<lparr>bitsize := word_of_int (int ?bl - int (Suc j))\<rparr>)"
    using assms(1,2,6,4) refresh_adjacent [of ?s1 "Suc j"] by simp
  ultimately show ?thesis using b assms(2) by (simp add: step_def bind_err_def)
qed

lemma run_shift_last:
  assumes "0 < n" "wordoffset s + 1 = lastword s" "wordoffset s < SCRATCHPAD div 8"
    "bitmask s = 2 ^ j" "j + n \<le> 63" "2 ^ (j + n) dvd unat (narr s (wordoffset s))"
    "narr s (wordoffset s) \<noteq> 0" "bitsize s \<noteq> 1"
  shows "run (n + m) s =
           run m (s\<lparr>bitmask := 2 ^ (j + n),
                    bitsize := word_of_nat (bit_length (unat (narr s (wordoffset s))) - (j + n)),
                    steps := steps s + of_nat n, divsteps := divsteps s + of_nat n\<rparr>)"
  using assms
proof (induction n arbitrary: s j rule: nat_induct_non_zero)
  case 1
  from "1.prems"(4) have j: "j < 63" by simp
  from step_shift_last [OF "1.prems"(1,2,3) j _ "1.prems"(6)] "1.prems"(5,7) show ?case
    by simp
next
  case (Suc n)
  let ?W = "narr s (wordoffset s)"
  let ?s1 = "s\<lparr>bitmask := 2 ^ Suc j, bitsize := word_of_nat (bit_length (unat ?W) - Suc j),
               steps := steps s + 1, divsteps := divsteps s + 1\<rparr>"
  from Suc.prems(4) have j: "j < 63" by simp
  have "2 ^ Suc j dvd (2::nat) ^ (j + Suc n)" by (rule le_imp_power_dvd) simp
  hence dv: "2 ^ Suc j dvd unat ?W" using Suc.prems(5) by (rule dvd_trans)
  have st: "step s = Inr ?s1" using Suc.prems(1,2,3) j dv Suc.prems(6) by (rule step_shift_last)
  have "j + Suc n < bit_length (unat ?W)" using Suc.prems(6,5) by (rule dvd_bit_length)
  hence a: "2 \<le> bit_length (unat ?W) - Suc j" using Suc.hyps by simp
  have b: "bit_length (unat ?W) - Suc j \<le> 64" using bit_length_le_64 [of ?W] by simp
  have sel: "\<And>x. bitsize (s\<lparr>bitmask := 2 ^ Suc j, bitsize := x,
               steps := steps s + 1, divsteps := divsteps s + 1\<rparr>) = x" by simp
  have ne: "bitsize ?s1 \<noteq> 1" unfolding sel using a b by (rule small_word_neq_1)
  have "run (Suc n + m) s = run (n + m) ?s1" using Suc.prems(7) st by simp
  also have "\<dots> = run m (?s1\<lparr>bitmask := 2 ^ (Suc j + n),
                    bitsize := word_of_nat (bit_length (unat (narr ?s1 (wordoffset ?s1))) - (Suc j + n)),
                    steps := steps ?s1 + of_nat n, divsteps := divsteps ?s1 + of_nat n\<rparr>)"
    using Suc.prems ne by (intro Suc.IH) simp_all
  also have "?s1\<lparr>bitmask := 2 ^ (Suc j + n),
                    bitsize := word_of_nat (bit_length (unat (narr ?s1 (wordoffset ?s1))) - (Suc j + n)),
                    steps := steps ?s1 + of_nat n, divsteps := divsteps ?s1 + of_nat n\<rparr> =
             s\<lparr>bitmask := 2 ^ (j + Suc n),
                    bitsize := word_of_nat (bit_length (unat ?W) - (j + Suc n)),
                    steps := steps s + of_nat (Suc n), divsteps := divsteps s + of_nat (Suc n)\<rparr>"
    by (simp add: add.commute add.left_commute)
  finally show ?case .
qed

lemma mul_add_identity:
  "ucast (mul_add w 1 0) = w" "(ucast (drop_bit 64 (mul_add w 1 0)) :: u64) = 0"
proof -
  let ?lo = "ucast (mul_add w 1 0) :: u64" and ?hi = "ucast (drop_bit 64 (mul_add w 1 0)) :: u64"
  have e: "unat ?lo + 2 ^ 64 * unat ?hi = unat w" using mul_add_split [of w 1 0] by simp
  have "unat w < 2 ^ 64" using unsigned_less [of w] by simp
  with e have h: "unat ?hi = 0" by (cases "unat ?hi") simp_all
  with e have "unat ?lo = unat w" by simp
  thus "?lo = w" by (simp only: word_unat_eq_iff)
  from h show "?hi = 0" by (simp add: unat_eq_0)
qed

lemma branch_reveal_identity:
  assumes "bitmask s = MSB64" "is_even s" "cvalue s = 1" "kvalue s = 0"
    "wordoffset s + 1 < SCRATCHPAD div 8"
  shows "branch s = Inr (s\<lparr>wordoffset := wordoffset s + 1, bitmask := 1,
                            steps := steps s + 1, divsteps := divsteps s + 1\<rparr>)"
proof -
  have "reveal s = s\<lparr>wordoffset := wordoffset s + 1, bitmask := 1,
                            steps := steps s + 1, divsteps := divsteps s + 1\<rparr>"
    using assms(3,4) by (cases s) (simp add: reveal_def mul_add_identity)
  thus ?thesis using assms(1,2,5) by (simp add: branch_def even_branch_def)
qed

text \<open>The states of the run on a power of two, at the start of word \<open>w\<close>.\<close>

lemma run_zero_word:
  fixes mem :: "nat \<Rightarrow> u64"
  assumes w: "w < q" and z: "mem w = 0" and cap: "q + 1 \<le> SCRATCHPAD div 8"
    and nz: "mem q \<noteq> 0"
    and bs: "bs \<noteq> 1"
  shows "run (64 + m)
           (\<lparr>narr = mem, wordoffset = w, bitmask = 1, lastword = q + 1, bitsize = bs,
             cvalue = 1, kvalue = 0, steps = st, divsteps = dv, mulsteps = 0, laststep = 0\<rparr>) =
         run m
           (\<lparr>narr = mem, wordoffset = Suc w, bitmask = 1, lastword = q + 1,
             bitsize = (if Suc w = q then word_of_nat (bit_length (unat (mem q))) else bs),
             cvalue = 1, kvalue = 0, steps = st + 64, divsteps = dv + 64, mulsteps = 0,
             laststep = 0\<rparr>)"
proof -
  let ?s = "\<lparr>narr = mem, wordoffset = w, bitmask = 1, lastword = q + 1, bitsize = bs,
             cvalue = 1, kvalue = 0, steps = st, divsteps = dv, mulsteps = 0, laststep = 0\<rparr>"
  let ?s63 = "\<lparr>narr = mem, wordoffset = w, bitmask = 2 ^ 63, lastword = q + 1, bitsize = bs,
             cvalue = 1, kvalue = 0, steps = st + 63, divsteps = dv + 63, mulsteps = 0, laststep = 0\<rparr>"
  let ?s64 = "\<lparr>narr = mem, wordoffset = Suc w, bitmask = 1, lastword = q + 1, bitsize = bs,
             cvalue = 1, kvalue = 0, steps = st + 64, divsteps = dv + 64, mulsteps = 0, laststep = 0\<rparr>"
  have "run (63 + Suc m) ?s =
          run (Suc m) (?s\<lparr>bitmask := 2 ^ (0 + 63), steps := steps ?s + of_nat 63,
                          divsteps := divsteps ?s + of_nat 63\<rparr>)"
    using w cap z bs by (intro run_shift_inner) simp_all
  hence a: "run (64 + m) ?s = run (Suc m) ?s63" by simp
  have ev: "is_even ?s63" by (simp add: is_even_def z)
  have "branch ?s63 = Inr (?s63\<lparr>wordoffset := wordoffset ?s63 + 1, bitmask := 1,
                            steps := steps ?s63 + 1, divsteps := divsteps ?s63 + 1\<rparr>)"
    using ev w cap by (intro branch_reveal_identity) (simp_all add: MSB64_eq)
  hence b: "branch ?s63 = Inr ?s64" by simp
  have r: "refresh_bitsize ?s64 = Inr (?s64\<lparr>bitsize :=
             (if Suc w = q then word_of_nat (bit_length (unat (mem q))) else bs)\<rparr>)"
  proof (cases "Suc w = q")
    case True
    have "refresh_bitsize ?s64 = Inr (?s64\<lparr>bitsize :=
            word_of_int (int (bit_length (unat (narr ?s64 (wordoffset ?s64)))) - int 0)\<rparr>)"
      using True cap nz by (intro refresh_adjacent) simp_all
    with True show ?thesis by simp
  next
    case False
    hence "refresh_bitsize ?s64 = Inr ?s64" by (intro refresh_not_adjacent) simp
    with False show ?thesis by simp
  qed
  have "step ?s63 = Inr (?s64\<lparr>bitsize :=
             (if Suc w = q then word_of_nat (bit_length (unat (mem q))) else bs)\<rparr>)"
    using b r w cap by (simp add: step_def bind_err_def)
  hence "run (Suc m) ?s63 = run m (?s64\<lparr>bitsize :=
             (if Suc w = q then word_of_nat (bit_length (unat (mem q))) else bs)\<rparr>)"
    using bs by simp
  with a show ?thesis by simp
qed


lemma run_zero_words:
  fixes mem :: "nat \<Rightarrow> u64"
  assumes z: "\<forall>i<q. mem i = 0" and nz: "mem q \<noteq> 0" and cap: "q + 1 \<le> SCRATCHPAD div 8"
    and bs: "bs \<noteq> 1" and q0: "q = 0 \<longrightarrow> bs = word_of_nat (bit_length (unat (mem q)))"
    and w: "w \<le> q"
  shows "run (64 * w + m) (fresh_state mem (q + 1) bs) =
         run m
           (\<lparr>narr = mem, wordoffset = w, bitmask = 1, lastword = q + 1,
             bitsize = (if w = q then word_of_nat (bit_length (unat (mem q))) else bs),
             cvalue = 1, kvalue = 0, steps = word_of_nat (64 * w),
             divsteps = word_of_nat (64 * w), mulsteps = 0, laststep = 0\<rparr>)"
  using w
proof (induction w arbitrary: m)
  case 0
  show ?case using q0 by (simp add: fresh_state_def)
next
  case (Suc w)
  hence wq: "w < q" by simp
  hence zw: "mem w = 0" using z by simp
  have "64 * Suc w + m = 64 * w + (64 + m)" by simp
  hence "run (64 * Suc w + m) (fresh_state mem (q + 1) bs) =
        run (64 * w + (64 + m)) (fresh_state mem (q + 1) bs)" by (simp only:)
  also have "\<dots> = run (64 + m)
           (\<lparr>narr = mem, wordoffset = w, bitmask = 1, lastword = q + 1,
             bitsize = (if w = q then word_of_nat (bit_length (unat (mem q))) else bs),
             cvalue = 1, kvalue = 0, steps = word_of_nat (64 * w),
             divsteps = word_of_nat (64 * w), mulsteps = 0, laststep = 0\<rparr>)"
    using wq by (intro Suc.IH) simp
  also have "\<dots> = run (64 + m)
           (\<lparr>narr = mem, wordoffset = w, bitmask = 1, lastword = q + 1, bitsize = bs,
             cvalue = 1, kvalue = 0, steps = word_of_nat (64 * w),
             divsteps = word_of_nat (64 * w), mulsteps = 0, laststep = 0\<rparr>)"
    using wq by simp
  also have "\<dots> = run m
           (\<lparr>narr = mem, wordoffset = Suc w, bitmask = 1, lastword = q + 1,
             bitsize = (if Suc w = q then word_of_nat (bit_length (unat (mem q))) else bs),
             cvalue = 1, kvalue = 0, steps = word_of_nat (64 * w) + 64,
             divsteps = word_of_nat (64 * w) + 64, mulsteps = 0, laststep = 0\<rparr>)"
    using wq zw cap nz bs by (rule run_zero_word)
  also have "word_of_nat (64 * w) + 64 = (word_of_nat (64 * Suc w) :: u64)" by simp
  finally show ?case .
qed

lemma power_of_two_run:
  fixes mem :: "nat \<Rightarrow> u64"
  assumes k: "1 \<le> k" and fit: "k + 1 < 2 ^ 64"
    and cap: "k div 64 + 1 \<le> SCRATCHPAD div 8"
    and top: "mem (k div 64) = 2 ^ (k mod 64)" and z: "\<forall>i<k div 64. mem i = 0"
  shows "\<exists>s. run k (fresh_state mem (k div 64 + 1) (word_of_nat (k + 1))) = Some (Inr s) \<and>
             bitsize s = 1 \<and> steps s = word_of_nat k \<and> divsteps s = word_of_nat k \<and>
             mulsteps s = 0"
proof -
  let ?q = "k div 64" and ?r = "k mod 64"
  let ?bs = "word_of_nat (k + 1) :: u64"
  have r: "?r < 64" by simp
  have um: "unat (mem ?q) = 2 ^ ?r" unfolding top using r by (rule unat_two_power)
  have nz: "mem ?q \<noteq> 0" unfolding top using r by (rule two_power_neq_0)
  have bl: "bit_length (unat (mem ?q)) = Suc ?r" unfolding um by (rule bit_length_two_power)
  have "unat ?bs = (k + 1) mod 2 ^ LENGTH(64)" by (rule unat_of_nat)
  hence ub: "unat ?bs = k + 1" using fit by simp
  have bs: "?bs \<noteq> 1"
  proof
    assume "?bs = 1"
    hence "unat ?bs = 1" by simp
    with ub k show False by simp
  qed
  have q0: "?q = 0 \<longrightarrow> ?bs = word_of_nat (bit_length (unat (mem ?q)))"
  proof
    assume "?q = 0"
    hence "k = ?r" using div_mult_mod_eq [of k 64] by simp
    thus "?bs = word_of_nat (bit_length (unat (mem ?q)))" unfolding bl by simp
  qed
  let ?sq = "\<lparr>narr = mem, wordoffset = ?q, bitmask = 1, lastword = ?q + 1,
             bitsize = word_of_nat (Suc ?r),
             cvalue = 1, kvalue = 0, steps = word_of_nat (64 * ?q),
             divsteps = word_of_nat (64 * ?q), mulsteps = 0, laststep = 0\<rparr> :: state"
  have kk: "k = 64 * ?q + ?r" by simp
  have "run (64 * ?q + ?r) (fresh_state mem (?q + 1) ?bs) = run ?r ?sq"
    using run_zero_words [OF z nz cap bs q0 order_refl, of ?r] by (simp add: bl)
  hence first: "run k (fresh_state mem (?q + 1) ?bs) = run ?r ?sq" using kk by simp
  show ?thesis
  proof (cases "?r = 0")
    case True
    hence "bitsize ?sq = 1" by simp
    hence "run ?r ?sq = Some (Inr ?sq)" by (rule run_done)
    moreover have "word_of_nat (64 * ?q) = (word_of_nat k :: u64)" using kk True by simp
    ultimately show ?thesis using first True by simp
  next
    case False
    hence rp: "0 < ?r" by simp
    let ?sf = "?sq\<lparr>bitmask := 2 ^ (0 + ?r),
                    bitsize := word_of_nat (bit_length (unat (narr ?sq (wordoffset ?sq))) - (0 + ?r)),
                    steps := steps ?sq + of_nat ?r, divsteps := divsteps ?sq + of_nat ?r\<rparr>"
    have ne: "bitsize ?sq \<noteq> 1"
    proof -
      have "(word_of_nat (Suc ?r) :: u64) \<noteq> 1" using rp r by (intro small_word_neq_1) simp_all
      thus ?thesis by simp
    qed
    have "run (?r + 0) ?sq = run 0 ?sf"
      using rp cap nz ne r by (intro run_shift_last) (simp_all add: um)
    hence e1: "run ?r ?sq = run 0 ?sf" by (simp only: add_0_right)
    have fb: "bitsize ?sf = 1" by (simp add: bl)
    hence e2: "run 0 ?sf = Some (Inr ?sf)" by (rule run_done)
    have "(word_of_nat (64 * ?q) :: u64) + word_of_nat ?r = word_of_nat (64 * ?q + ?r)"
      by (simp only: of_nat_add)
    hence sum: "(word_of_nat (64 * ?q) :: u64) + word_of_nat ?r = word_of_nat k"
      by (simp only: kk [symmetric])
    have fs: "steps ?sf = word_of_nat k" "divsteps ?sf = word_of_nat k" "mulsteps ?sf = 0"
      using sum by simp_all
    from first e1 e2 have "run k (fresh_state mem (?q + 1) ?bs) = Some (Inr ?sf)" by (simp only:)
    with fb fs show ?thesis by blast
  qed
qed

section \<open>The loader\<close>

lemma asbyte_loop_bit:
  assumes "i \<le> 64" "\<And>n. bit v n \<Longrightarrow> 64 - i \<le> n"
  shows "bit (asbyte_loop s i v) n =
           (if n < 64 - i then s (63 - n) \<noteq> CHR ''0'' else bit v n)"
  using assms
proof (induction s i v rule: asbyte_loop.induct)
  case (1 s i v)
  show ?case
  proof (cases "i < 64")
    case False
    with "1.prems"(1) have "i = 64" by simp
    thus ?thesis by (subst asbyte_loop.simps) simp
  next
    case True
    let ?b = "(if s i = CHR ''0'' then 0 else 1) :: u64"
    let ?v' = "v + push_bit (63 - i) ?b"
    have bb: "\<And>m. bit (push_bit (63 - i) ?b) m = (m = 63 - i \<and> s i \<noteq> CHR ''0'')"
      using True by (auto simp: bit_push_bit_iff bit_1_iff)
    have disj: "\<And>m. \<not> bit v m \<or> \<not> bit (push_bit (63 - i) ?b) m"
    proof -
      fix m
      show "\<not> bit v m \<or> \<not> bit (push_bit (63 - i) ?b) m"
      proof (cases "bit v m")
        case True
        hence "64 - i \<le> m" by (rule "1.prems"(2))
        hence "m \<noteq> 63 - i" using \<open>i < 64\<close> by simp
        thus ?thesis by (simp add: bb)
      qed simp
    qed
    have v': "?v' = v OR push_bit (63 - i) ?b" using disj by (rule disjunctive_add)
    have bv': "\<And>m. bit ?v' m = (bit v m \<or> (m = 63 - i \<and> s i \<noteq> CHR ''0''))"
      unfolding v' by (simp only: bit_or_iff bb)
    have low: "\<And>m. bit ?v' m \<Longrightarrow> 64 - (i + 1) \<le> m"
    proof -
      fix m assume "bit ?v' m"
      hence "bit v m \<or> m = 63 - i" by (auto simp: bv')
      thus "64 - (i + 1) \<le> m" using "1.prems"(2) [of m] by auto
    qed
    have le: "i + 1 \<le> 64" using True by simp
    have ih: "bit (asbyte_loop s (i + 1) ?v') n =
           (if n < 64 - (i + 1) then s (63 - n) \<noteq> CHR ''0'' else bit ?v' n)"
      using True le low by (rule "1.IH")
    have unf: "asbyte_loop s i v = asbyte_loop s (i + 1) ?v'"
      using True by (subst asbyte_loop.simps) simp
    show ?thesis
    proof (cases "n < 64 - (i + 1)")
      case True
      hence "n < 64 - i" by simp
      with True show ?thesis unfolding unf ih by simp
    next
      case False
      show ?thesis
      proof (cases "n = 63 - i")
        case True
        hence nb: "\<not> bit v n" using "1.prems"(2) [of n] \<open>i < 64\<close> by auto
        from True \<open>i < 64\<close> have f: "n < 64 - i" "63 - n = i" by simp_all
        show ?thesis unfolding unf ih bv' using nb f \<open>\<not> n < 64 - (i + 1)\<close> True by simp
      next
        case False
        with \<open>\<not> n < 64 - (i + 1)\<close> have "\<not> n < 64 - i" by simp
        with False \<open>\<not> n < 64 - (i + 1)\<close> show ?thesis unfolding unf ih bv' by simp
      qed
    qed
  qed
qed

lemma asbyte_bit: "bit (asbyte s) n = (n < 64 \<and> s (63 - n) \<noteq> CHR ''0'')"
proof -
  have "bit (asbyte_loop s 0 0) n = (if n < 64 - 0 then s (63 - n) \<noteq> CHR ''0'' else bit (0::u64) n)"
    by (rule asbyte_loop_bit) simp_all
  thus ?thesis by (simp add: asbyte_def)
qed

lemma load_loop_result:
  "c = extra + 64 * n \<Longrightarrow>
   load_loop num extra c i mem =
     (extra, i + n,
      \<lambda>x. if i \<le> x \<and> x < i + n then asbyte (\<lambda>j. num (c - 64 * (x - i + 1) + j)) else mem x)"
proof (induction n arbitrary: c i mem)
  case 0
  have "(\<lambda>x. if i \<le> x \<and> x < i + 0 then asbyte (\<lambda>j. num (c - 64 * (x - i + 1) + j)) else mem x) = mem"
    by (rule ext) auto
  with 0 show ?case by (subst load_loop.simps) simp
next
  case (Suc n)
  let ?m1 = "mem(i := asbyte (\<lambda>j. num (c - 64 + j)))"
  from Suc.prems have gt: "c > extra" and c': "c - 64 = extra + 64 * n" by simp_all
  have "load_loop num extra c i mem = load_loop num extra (c - 64) (i + 1) ?m1"
    using gt by (subst load_loop.simps) simp
  also have "\<dots> = (extra, i + 1 + n,
      \<lambda>x. if i + 1 \<le> x \<and> x < i + 1 + n
           then asbyte (\<lambda>j. num (c - 64 - 64 * (x - (i + 1) + 1) + j)) else ?m1 x)"
    using c' by (rule Suc.IH)
  also have "(\<lambda>x. if i + 1 \<le> x \<and> x < i + 1 + n
           then asbyte (\<lambda>j. num (c - 64 - 64 * (x - (i + 1) + 1) + j)) else ?m1 x) =
      (\<lambda>x. if i \<le> x \<and> x < i + Suc n then asbyte (\<lambda>j. num (c - 64 * (x - i + 1) + j)) else mem x)"
  proof (rule ext)
    fix x
    show "(if i + 1 \<le> x \<and> x < i + 1 + n
           then asbyte (\<lambda>j. num (c - 64 - 64 * (x - (i + 1) + 1) + j)) else ?m1 x) =
          (if i \<le> x \<and> x < i + Suc n then asbyte (\<lambda>j. num (c - 64 * (x - i + 1) + j)) else mem x)"
    proof (cases "i + 1 \<le> x \<and> x < i + 1 + n")
      case True
      hence "x - (i + 1) + 1 = x - i" by arith
      hence "c - 64 - 64 * (x - (i + 1) + 1) = c - 64 * (x - i + 1)" by simp
      with True show ?thesis by simp
    next
      case False
      thus ?thesis by auto
    qed
  qed
  finally show ?case by simp
qed

lemma unat_NWORDS: "unat (word_of_nat NWORDS :: u64) = NWORDS"
  by (simp add: NWORDS_def)

lemma capacity_check:
  assumes "flen < 2 ^ 64"
  shows "((word_of_nat flen :: u64) div 64 > word_of_nat NWORDS) = (NWORDS < flen div 64)"
proof -
  have "unat (word_of_nat flen :: u64) = flen mod 2 ^ LENGTH(64)" by (rule unat_of_nat)
  hence u: "unat (word_of_nat flen :: u64) = flen" using assms by simp
  have "unat ((word_of_nat flen :: u64) div 64) = flen div 64"
    by (simp add: unat_div u)
  thus ?thesis by (simp add: word_less_nat_alt unat_NWORDS)
qed

lemma load_rejects:
  assumes "content \<noteq> []" "length content - 1 < 2 ^ 64"
  shows "(load mem after content = Inl NotEnoughMemory) = (NWORDS < (length content - 1) div 64)"
    and "\<not> NWORDS < (length content - 1) div 64 \<Longrightarrow> \<exists>st. load mem after content = Inr st"
  using assms
  by (auto simp: load_def Let_def capacity_check split: prod.splits)

lemma ceil64: "(flen + 63) div 64 = (if flen mod 64 \<noteq> 0 then flen div 64 + 1 else flen div (64::nat))"
proof (cases "flen mod 64 = 0")
  case True
  then obtain q where "flen = 64 * q" by (auto simp: mod_eq_0_iff_dvd)
  thus ?thesis by simp
next
  case False
  define e where "e = flen mod 64"
  define q where "q = flen div 64"
  have f: "flen = 64 * q + e" by (simp add: e_def q_def)
  have e: "0 < e" "e < 64" using False by (simp_all add: e_def)
  hence "flen + 63 = 64 * (q + 1) + (e - 1)" using f by simp
  hence "(flen + 63) div 64 = (64 * (q + 1) + (e - 1)) div 64" by simp
  also have "\<dots> = q + 1" using e by simp
  finally show ?thesis using False by (simp add: q_def)
qed

lemma load_unfold:
  assumes "content \<noteq> []"
    and "\<not> (word_of_nat (length content - 1) :: u64) div 64 > word_of_nat NWORDS"
    and "load_loop ((\<lambda>i. if i < length content then content ! i else after i)
           (length content - 1 := CHR 0x00)) ((length content - 1) mod 64) (length content - 1) 0 mem
         = (c, i, mem')"
  shows "load mem after content =
     Inr (fresh_state
       (if (length content - 1) mod 64 \<noteq> 0
        then mem'(i := drop_bit (64 - (length content - 1) mod 64)
               (asbyte (\<lambda>j. ((\<lambda>i. if i < length content then content ! i else after i)
                   (length content - 1 := CHR 0x00)) (c - (length content - 1) mod 64 + j))))
        else mem')
       (if (length content - 1) mod 64 \<noteq> 0 then i + 1 else i)
       (word_of_nat (length content - 1)))"
  using assms by (simp add: load_def Let_def)

lemma load_bits:
  fixes content :: string
  assumes ne: "content \<noteq> []" and fl: "flen = length content - 1"
    and small: "flen < 2 ^ 64" and fits: "flen div 64 \<le> NWORDS"
  obtains mem' where
    "load mem after content =
       Inr (fresh_state mem' ((flen + 63) div 64) (word_of_nat flen))"
    "\<And>x n. x < (flen + 63) div 64 \<Longrightarrow>
       bit (mem' x) n =
         (n < 64 \<and> 64 * x + n < flen \<and> content ! (flen - 1 - (64 * x + n)) \<noteq> CHR ''0'')"
    "\<And>x. (flen + 63) div 64 \<le> x \<Longrightarrow> mem' x = mem x"
proof -
  let ?num = "(\<lambda>i. if i < length content then content ! i else after i)(flen := CHR 0x00)"
  let ?q = "flen div 64" and ?e = "flen mod 64"
  let ?m1 = "\<lambda>x. if 0 \<le> x \<and> x < 0 + ?q
                then asbyte (\<lambda>j. ?num (flen - 64 * (x - 0 + 1) + j)) else mem x"
  let ?m2 = "if ?e \<noteq> 0
             then ?m1(0 + ?q := drop_bit (64 - ?e) (asbyte (\<lambda>j. ?num (?e - ?e + j)))) else ?m1"
  let ?lw = "if ?e \<noteq> 0 then 0 + ?q + 1 else 0 + ?q"
  have num: "\<And>i. i < flen \<Longrightarrow> ?num i = content ! i" using ne by (auto simp: fl)
  have split: "flen = ?e + 64 * ?q" by simp
  have ll: "load_loop ?num ?e flen 0 mem = (?e, 0 + ?q, ?m1)"
    using split by (rule load_loop_result)
  have nrej: "\<not> (word_of_nat flen :: u64) div 64 > word_of_nat NWORDS"
    using fits by (simp add: capacity_check [OF small])
  have ld: "load mem after content = Inr (fresh_state ?m2 ?lw (word_of_nat flen))"
    using ne nrej ll unfolding fl by (rule load_unfold)
  have lw: "?lw = (flen + 63) div 64" by (simp only: ceil64 add_0)
  have full: "\<And>x n. x < ?q \<Longrightarrow>
       bit (?m2 x) n = (n < 64 \<and> 64 * x + n < flen \<and> content ! (flen - 1 - (64 * x + n)) \<noteq> CHR ''0'')"
  proof -
    fix x n assume x: "x < ?q"
    hence le: "64 * (x + 1) \<le> flen" by simp 
    have "?m2 x = asbyte (\<lambda>j. ?num (flen - 64 * (x + 1) + j))" using x by simp
    hence b: "bit (?m2 x) n = (n < 64 \<and> ?num (flen - 64 * (x + 1) + (63 - n)) \<noteq> CHR ''0'')"
      by (simp only: asbyte_bit)
    show "bit (?m2 x) n = (n < 64 \<and> 64 * x + n < flen \<and> content ! (flen - 1 - (64 * x + n)) \<noteq> CHR ''0'')"
    proof (cases "n < 64")
      case False thus ?thesis unfolding b by simp
    next
      case True
      with le have idx: "flen - 64 * (x + 1) + (63 - n) = flen - 1 - (64 * x + n)"
        and lt: "flen - 1 - (64 * x + n) < flen" and lt2: "64 * x + n < flen" by simp_all
      show ?thesis unfolding b idx using True lt2 num [OF lt] by simp
    qed
  qed
  have top: "\<And>n. ?e \<noteq> 0 \<Longrightarrow>
       bit (?m2 ?q) n = (n < 64 \<and> 64 * ?q + n < flen \<and> content ! (flen - 1 - (64 * ?q + n)) \<noteq> CHR ''0'')"
  proof -
    fix n assume e: "?e \<noteq> 0"
    hence "?m2 ?q = drop_bit (64 - ?e) (asbyte (\<lambda>j. ?num (?e - ?e + j)))" by simp
    hence "bit (?m2 ?q) n = (64 - ?e + n < 64 \<and> ?num (?e - ?e + (63 - (64 - ?e + n))) \<noteq> CHR ''0'')"
      by (simp only: bit_drop_bit_eq o_apply asbyte_bit)
    hence b: "bit (?m2 ?q) n = (64 - ?e + n < 64 \<and> ?num (63 - (64 - ?e + n)) \<noteq> CHR ''0'')"
      by (simp only: diff_self_eq_0 add_0)
    have elt: "?e < 64" by simp
    show "bit (?m2 ?q) n = (n < 64 \<and> 64 * ?q + n < flen \<and> content ! (flen - 1 - (64 * ?q + n)) \<noteq> CHR ''0'')"
    proof (cases "n < ?e")
      case False
      hence "\<not> 64 * ?q + n < flen" using split by arith
      moreover from False elt have "\<not> 64 - ?e + n < 64" by arith
      ultimately show ?thesis unfolding b by simp
    next
      case True
      hence idx: "63 - (64 - ?e + n) = flen - 1 - (64 * ?q + n)" using split elt by arith
      from True have lt2: "64 * ?q + n < flen" using split by arith
      hence lt: "flen - 1 - (64 * ?q + n) < flen" by arith
      from True elt have n64: "n < 64" and c1: "64 - ?e + n < 64" by simp_all
      show ?thesis unfolding b idx by (simp only: n64 c1 lt2 num [OF lt] simp_thms)
    qed
  qed
  have bits: "\<And>x n. x < (flen + 63) div 64 \<Longrightarrow>
       bit (?m2 x) n = (n < 64 \<and> 64 * x + n < flen \<and> content ! (flen - 1 - (64 * x + n)) \<noteq> CHR ''0'')"
  proof -
    fix x n assume "x < (flen + 63) div 64"
    hence "x < ?q \<or> (x = ?q \<and> ?e \<noteq> 0)" unfolding lw [symmetric] by (auto split: if_splits)
    thus "bit (?m2 x) n = (n < 64 \<and> 64 * x + n < flen \<and> content ! (flen - 1 - (64 * x + n)) \<noteq> CHR ''0'')"
      using full [of x n] top [of n] by blast
  qed
  have rest: "\<And>x. (flen + 63) div 64 \<le> x \<Longrightarrow> ?m2 x = mem x"
    unfolding lw [symmetric] by (auto split: if_splits)
  from ld bits rest show thesis unfolding lw by (rule that)
qed

section \<open>The claims about the loader and the power-of-two run\<close>

text \<open>C8, as stated: every input whose bit length exceeds \<open>NWORDS\<close> words of 64 bits is
  rejected. A file of \<open>64 * NWORDS + 1\<close> digits and a newline exceeds that capacity and is
  not rejected.\<close>

theorem capacity_rejection_counterexample:
  "64 * NWORDS < length (replicate 3200000002 (CHR ''1'')) - 1 \<and>
   load (\<lambda>i. 0) (\<lambda>i. CHR 0x00) (replicate 3200000002 (CHR ''1'')) \<noteq> Inl NotEnoughMemory"
proof -
  let ?c = "replicate 3200000002 (CHR ''1'')"
  have len: "length ?c = 3200000002" by (simp only: length_replicate)
  have ne: "?c \<noteq> []" by (simp only: replicate_empty)
  have small: "length ?c - 1 < 2 ^ 64" unfolding len by simp
  have "\<not> NWORDS < (length ?c - 1) div 64" unfolding len by (simp add: NWORDS_def)
  hence "load (\<lambda>i. 0) (\<lambda>i. CHR 0x00) ?c \<noteq> Inl NotEnoughMemory"
    by (simp only: load_rejects(1) [OF ne small] not_False_eq_True)
  moreover have "64 * NWORDS < length ?c - 1" unfolding len by (simp add: NWORDS_def)
  ultimately show ?thesis by (rule conjI [rotated])
qed

text \<open>C8, amended: for every file that is not empty (its length fitting the 64-bit
  \<open>flen\<close>), the loader reports the diagnostic and exits, before it writes the buffer, exactly
  when the number of whole 64-bit words of the bit length (the file length minus the newline,
  divided by 64 and rounded down) exceeds \<open>NWORDS\<close>; every other input yields a starting
  state.\<close>

theorem capacity_rejection:
  assumes "content \<noteq> []" and "length content - 1 < 2 ^ 64"
  shows "(load mem after content = Inl NotEnoughMemory) = (NWORDS < (length content - 1) div 64) \<and>
         (\<not> NWORDS < (length content - 1) div 64 \<longrightarrow> (\<exists>st. load mem after content = Inr st))"
  using load_rejects [OF assms] by blast

text \<open>An instance of C8: a file of three digits is accepted.\<close>

theorem capacity_rejection_witness:
  "''101'' @ [CHR 0x0A] \<noteq> [] \<and> length (''101'' @ [CHR 0x0A]) - 1 < 2 ^ 64 \<and>
   load (\<lambda>i. 0) (\<lambda>i. CHR 0x00) (''101'' @ [CHR 0x0A]) \<noteq> Inl NotEnoughMemory \<and>
   (\<exists>st. load (\<lambda>i. 0) (\<lambda>i. CHR 0x00) (''101'' @ [CHR 0x0A]) = Inr st)"
proof -
  have h1: "''101'' @ [CHR 0x0A] \<noteq> []" by simp
  have h2: "length (''101'' @ [CHR 0x0A]) - 1 < 2 ^ 64" by simp
  have n: "\<not> NWORDS < (length (''101'' @ [CHR 0x0A]) - 1) div 64" by (simp add: NWORDS_def)
  from capacity_rejection [OF h1 h2, of "\<lambda>i. 0" "\<lambda>i. CHR 0x00"] n h1 h2 show ?thesis by blast
qed

text \<open>C10 (the loader reads every character other than \<open>0\<close> as a 1 bit). Bit \<open>63 - i\<close> of
  \<open>asbyte s\<close> is set exactly when character \<open>i\<close> of the block is not \<open>0\<close>. For every file
  within capacity the loader yields a starting state, whatever the characters are, and bit
  \<open>p\<close> of the number it stores is set exactly when the character \<open>p\<close> places before the
  last digit is not \<open>0\<close>.\<close>

theorem asbyte_reads_non_zero_as_one:
  "(\<forall>i<64. bit (asbyte s) (63 - i) = (s i \<noteq> CHR ''0'')) \<and>
   (content \<noteq> [] \<and> length content - 1 < 2 ^ 64 \<and> (length content - 1) div 64 \<le> NWORDS \<longrightarrow>
      (\<exists>st. load mem after content = Inr st \<and> wordoffset st = 0 \<and> bitmask st = 1 \<and>
         lastword st = (length content - 1 + 63) div 64 \<and>
         (\<forall>p < length content - 1.
            bit (narr st (p div 64)) (p mod 64) =
              (content ! (length content - 1 - 1 - p) \<noteq> CHR ''0''))))"
proof (intro conjI impI allI)
  fix i :: nat assume "i < 64"
  thus "bit (asbyte s) (63 - i) = (s i \<noteq> CHR ''0'')" by (auto simp: asbyte_bit)
next
  assume a: "content \<noteq> [] \<and> length content - 1 < 2 ^ 64 \<and> (length content - 1) div 64 \<le> NWORDS"
  let ?flen = "length content - 1"
  from a have ne: "content \<noteq> []" and small: "?flen < 2 ^ 64" and fits: "?flen div 64 \<le> NWORDS"
    by simp_all
  obtain mem' where
    ld: "load mem after content =
       Inr (fresh_state mem' ((?flen + 63) div 64) (word_of_nat ?flen))"
    and bits: "\<And>x n. x < (?flen + 63) div 64 \<Longrightarrow>
       bit (mem' x) n =
         (n < 64 \<and> 64 * x + n < ?flen \<and> content ! (?flen - 1 - (64 * x + n)) \<noteq> CHR ''0'')"
    and rest: "\<And>x. (?flen + 63) div 64 \<le> x \<Longrightarrow> mem' x = mem x"
    by (rule load_bits [OF ne refl small fits, of mem after]) blast
  have "\<forall>p < ?flen. bit (mem' (p div 64)) (p mod 64) = (content ! (?flen - 1 - p) \<noteq> CHR ''0'')"
  proof (intro allI impI)
    fix p assume p: "p < ?flen"
    hence "p div 64 < (?flen + 63) div 64" by arith
    from bits [OF this, of "p mod 64"] p
    show "bit (mem' (p div 64)) (p mod 64) = (content ! (?flen - 1 - p) \<noteq> CHR ''0'')" by simp
  qed
  thus "\<exists>st. load mem after content = Inr st \<and> wordoffset st = 0 \<and> bitmask st = 1 \<and>
         lastword st = (?flen + 63) div 64 \<and>
         (\<forall>p < ?flen. bit (narr st (p div 64)) (p mod 64) = (content ! (?flen - 1 - p) \<noteq> CHR ''0''))"
    unfolding ld by (simp add: fresh_state_def)
qed

text \<open>An instance of C10: the character \<open>x\<close> is read as a 1 bit.\<close>

theorem asbyte_reads_non_zero_as_one_witness:
  "bit (asbyte (\<lambda>i. CHR ''x'')) (63 - 5) \<and>
   (\<exists>st. load (\<lambda>i. 0) (\<lambda>i. CHR 0x00) (''1x0'' @ [CHR 0x0A]) = Inr st \<and>
      bit (narr st (1 div 64)) (1 mod 64))"
proof -
  have h: "''1x0'' @ [CHR 0x0A] \<noteq> [] \<and> length (''1x0'' @ [CHR 0x0A]) - 1 < 2 ^ 64 \<and>
           (length (''1x0'' @ [CHR 0x0A]) - 1) div 64 \<le> NWORDS" by (simp add: NWORDS_def)
  have i: "(5::nat) < 64" by simp
  from asbyte_reads_non_zero_as_one
    [of "\<lambda>i. CHR ''x''" "''1x0'' @ [CHR 0x0A]" "\<lambda>i. 0" "\<lambda>i. CHR 0x00"] h
  have a: "\<forall>i<64. bit (asbyte (\<lambda>i. CHR ''x'')) (63 - i) = (CHR ''x'' \<noteq> CHR ''0'')"
    and b: "\<exists>st. load (\<lambda>i. 0) (\<lambda>i. CHR 0x00) (''1x0'' @ [CHR 0x0A]) = Inr st \<and>
         wordoffset st = 0 \<and> bitmask st = 1 \<and>
         lastword st = (length (''1x0'' @ [CHR 0x0A]) - 1 + 63) div 64 \<and>
         (\<forall>p < length (''1x0'' @ [CHR 0x0A]) - 1.
            bit (narr st (p div 64)) (p mod 64) =
              ((''1x0'' @ [CHR 0x0A]) ! (length (''1x0'' @ [CHR 0x0A]) - 1 - 1 - p) \<noteq> CHR ''0''))"
    by blast+
  from a [rule_format, OF i] have "bit (asbyte (\<lambda>i. CHR ''x'')) (63 - 5)" by simp
  moreover from b obtain st where
    st: "load (\<lambda>i. 0) (\<lambda>i. CHR 0x00) (''1x0'' @ [CHR 0x0A]) = Inr st"
    and bs: "\<forall>p < length (''1x0'' @ [CHR 0x0A]) - 1.
            bit (narr st (p div 64)) (p mod 64) =
              ((''1x0'' @ [CHR 0x0A]) ! (length (''1x0'' @ [CHR 0x0A]) - 1 - 1 - p) \<noteq> CHR ''0'')"
    by blast
  from bs have "bit (narr st (1 div 64)) (1 mod 64) =
      ((''1x0'' @ [CHR 0x0A]) ! (length (''1x0'' @ [CHR 0x0A]) - 1 - 1 - 1) \<noteq> CHR ''0'')"
    by simp
  hence "bit (narr st (1 div 64)) (1 mod 64)" by simp
  ultimately show ?thesis using st by blast
qed

lemma power_content_nth:
  assumes "i \<le> k"
  shows "((CHR ''1'' # replicate k (CHR ''0'') @ [CHR 0x0A]) ! i \<noteq> CHR ''0'') = (i = 0)"
proof (cases i)
  case 0
  thus ?thesis by simp
next
  case (Suc j)
  with assms have "j < k" by simp
  hence "(replicate k (CHR ''0'') @ [CHR 0x0A]) ! j = CHR ''0''" by (simp add: nth_append)
  with Suc show ?thesis by simp
qed

lemma load_power_of_two:
  assumes fit: "k + 1 < 2 ^ 64"
    and ld: "load mem after (CHR ''1'' # replicate k (CHR ''0'') @ [CHR 0x0A]) = Inr s0"
  obtains mem' where "s0 = fresh_state mem' (k div 64 + 1) (word_of_nat (k + 1))"
    "mem' (k div 64) = 2 ^ (k mod 64)" "\<forall>i<k div 64. mem' i = 0"
    "k div 64 + 1 \<le> SCRATCHPAD div 8"
proof -
  let ?c = "CHR ''1'' # replicate k (CHR ''0'') @ [CHR 0x0A]"
  let ?q = "k div 64" and ?r = "k mod 64"
  have ne: "?c \<noteq> []" by simp
  have fl: "k + 1 = length ?c - 1" by simp
  have small: "length ?c - 1 < 2 ^ 64" using fit by simp
  have "load mem after ?c \<noteq> Inl NotEnoughMemory" unfolding ld by simp
  hence "\<not> NWORDS < (length ?c - 1) div 64" using load_rejects(1) [OF ne small, of mem after] by blast
  hence fits: "(k + 1) div 64 \<le> NWORDS" by simp
  obtain mem' where
    l2: "load mem after ?c = Inr (fresh_state mem' ((k + 1 + 63) div 64) (word_of_nat (k + 1)))"
    and bits: "\<And>x n. x < (k + 1 + 63) div 64 \<Longrightarrow>
       bit (mem' x) n = (n < 64 \<and> 64 * x + n < k + 1 \<and> ?c ! (k + 1 - 1 - (64 * x + n)) \<noteq> CHR ''0'')"
    and rest: "\<And>x. (k + 1 + 63) div 64 \<le> x \<Longrightarrow> mem' x = mem x"
    by (rule load_bits [OF ne fl fit fits, of mem after]) blast
  have lw: "(k + 1 + 63) div 64 = ?q + 1" by simp
  have s0: "s0 = fresh_state mem' (?q + 1) (word_of_nat (k + 1))"
    using ld l2 unfolding lw by simp
  have bit_iff: "\<And>x n. x \<le> ?q \<Longrightarrow> n < 64 \<Longrightarrow> bit (mem' x) n = (64 * x + n = k)"
  proof -
    fix x n :: nat assume x: "x \<le> ?q" and n: "n < 64"
    hence "x < (k + 1 + 63) div 64" unfolding lw by simp
    from bits [OF this, of n] n
    have b: "bit (mem' x) n = (64 * x + n < k + 1 \<and> ?c ! (k - (64 * x + n)) \<noteq> CHR ''0'')" by simp
    show "bit (mem' x) n = (64 * x + n = k)"
    proof (cases "64 * x + n \<le> k")
      case True
      hence "k - (64 * x + n) \<le> k" by simp
      from power_content_nth [OF this] True show ?thesis unfolding b by auto
    next
      case False
      thus ?thesis unfolding b by simp
    qed
  qed
  have top: "mem' ?q = 2 ^ ?r"
  proof (rule bit_word_eqI)
    fix n assume "n < LENGTH(64)"
    hence n: "n < 64" by simp
    have "(64 * ?q + n = k) = (n = ?r)" using n by (metis add_left_cancel mult_div_mod_eq)
    with bit_iff [OF order_refl n] n show "bit (mem' ?q) n = bit (2 ^ ?r :: u64) n"
      by (simp add: bit_exp_iff)
  qed
  have low: "\<forall>i<?q. mem' i = 0"
  proof (intro allI impI)
    fix i assume i: "i < ?q"
    show "mem' i = 0"
    proof (rule bit_word_eqI)
      fix n assume "n < LENGTH(64)"
      hence n: "n < 64" by simp
      from i have "64 * (i + 1) \<le> 64 * ?q" by simp
      also have "\<dots> \<le> k" by simp
      finally have "64 * i + n \<noteq> k" using n by simp
      with bit_iff [of i n] i n show "bit (mem' i) n = bit (0 :: u64) n" by simp
    qed
  qed
  have "?q \<le> NWORDS" using fits by (meson div_le_mono le_add1 le_trans)
  hence cap: "?q + 1 \<le> SCRATCHPAD div 8" by (simp add: cap_value NWORDS_def)
  from s0 top low cap show thesis by (rule that)
qed

text \<open>C7 (power of two). For every \<open>k \<ge> 1\<close>, when the loader accepts the file holding
  the digit 1 followed by \<open>k\<close> digits 0 (the value \<open>2^k\<close>; the file length fits the 64-bit
  \<open>flen\<close>), the loop ends after exactly \<open>k\<close> iterations with \<open>bitsize = 1\<close>, \<open>k\<close> steps,
  \<open>k\<close> division steps and no multiplication step.\<close>

theorem power_of_two_trajectory:
  assumes "1 \<le> k" and "k + 1 < 2 ^ 64"
    and "load mem after (CHR ''1'' # replicate k (CHR ''0'') @ [CHR 0x0A]) = Inr s0"
  shows "\<exists>s. run k s0 = Some (Inr s) \<and> bitsize s = 1 \<and>
             unat (steps s) = k \<and> unat (divsteps s) = k \<and> unat (mulsteps s) = 0"
proof -
  from assms(2,3) obtain mem' where s0: "s0 = fresh_state mem' (k div 64 + 1) (word_of_nat (k + 1))"
    and top: "mem' (k div 64) = 2 ^ (k mod 64)" and low: "\<forall>i<k div 64. mem' i = 0"
    and cap: "k div 64 + 1 \<le> SCRATCHPAD div 8"
    by (rule load_power_of_two)
  from power_of_two_run [OF assms(1,2) cap top low] obtain s where
    r: "run k s0 = Some (Inr s)" and b: "bitsize s = 1"
    and c: "steps s = word_of_nat k" "divsteps s = word_of_nat k" "mulsteps s = 0"
    unfolding s0 by blast
  have "unat (word_of_nat k :: u64) = k mod 2 ^ LENGTH(64)" by (rule unat_of_nat)
  hence "unat (word_of_nat k :: u64) = k" using assms(2) by simp
  with r b c show ?thesis by simp
qed

text \<open>An instance of C7: the file \<open>1000\<close>, the value 8.\<close>

theorem power_of_two_trajectory_witness:
  "(1::nat) \<le> 3 \<and> (3::nat) + 1 < 2 ^ 64 \<and>
   (\<exists>s0 s. load (\<lambda>i. 0) (\<lambda>i. CHR 0x00) (CHR ''1'' # replicate 3 (CHR ''0'') @ [CHR 0x0A]) = Inr s0 \<and>
      run 3 s0 = Some (Inr s) \<and> bitsize s = 1 \<and>
      unat (steps s) = 3 \<and> unat (divsteps s) = 3 \<and> unat (mulsteps s) = 0)"
proof -
  let ?c = "CHR ''1'' # replicate 3 (CHR ''0'') @ [CHR 0x0A]"
  have h1: "(1::nat) \<le> 3" by simp
  have h2: "(3::nat) + 1 < 2 ^ 64" by simp
  have ne: "?c \<noteq> []" by simp
  have small: "length ?c - 1 < 2 ^ 64" by simp
  have "\<not> NWORDS < (length ?c - 1) div 64" by (simp add: NWORDS_def)
  from load_rejects(2) [OF ne small this, of "\<lambda>i. 0" "\<lambda>i. CHR 0x00"]
  obtain s0 where h3: "load (\<lambda>i. 0) (\<lambda>i. CHR 0x00) ?c = Inr s0" ..
  from power_of_two_trajectory [OF h1 h2 h3] h1 h2 h3 show ?thesis by blast
qed

section \<open>A run on which \<open>bitsize\<close> is wrong\<close>

lemma load_failing_input:
  "load mem after
     (''110101010101010101010101010101010101010101010101010101010101010'' @
      ''1000000000000000000000000000000000000000000000000000000000000000'' @ [CHR 0x0A]) =
   Inr (fresh_state (mem(0 := 0x8000000000000000, 1 := 0x6AAAAAAAAAAAAAAA)) 2 127)"
proof -
  have "load mem after
     (''110101010101010101010101010101010101010101010101010101010101010'' @
      ''1000000000000000000000000000000000000000000000000000000000000000'' @ [CHR 0x0A]) =
   Inr (fresh_state (mem(0 := 0x8000000000000000, Suc 0 := 0x6AAAAAAAAAAAAAAA)) (Suc (Suc 0)) 127)"
    by (simp add: load_def Let_def load_loop.simps asbyte_def asbyte_loop.simps NWORDS_def
        word_less_nat_alt)
  thus ?thesis by (simp only: numeral_2_eq_2 One_nat_def)
qed

lemma lazy_word_msb: "lazy_word 0x8000000000000000 0x8000000000000000 = 0"
  by (simp add: lazy_word_def lazy_twice_def word_unat_eq_iff)

lemma lazy_carry_msb: "lazy_carry 0x8000000000000000 0x8000000000000000 = 2"
  by (simp add: lazy_carry_def lazy_word_msb lazy_twice_def word_le_nat_alt word_less_nat_alt)

lemma reveal_value:
  "ucast (mul_add 0x6AAAAAAAAAAAAAAA 3 2) = (0x4000000000000000 :: u64)"
  "ucast (drop_bit 64 (mul_add 0x6AAAAAAAAAAAAAAA 3 2)) = (1 :: u64)"
proof -
  let ?lo = "ucast (mul_add 0x6AAAAAAAAAAAAAAA 3 2) :: u64"
  let ?hi = "ucast (drop_bit 64 (mul_add 0x6AAAAAAAAAAAAAAA 3 2)) :: u64"
  have e: "unat ?lo + 2 ^ 64 * unat ?hi = 2 ^ 64 + 2 ^ 62"
    using mul_add_split [of "0x6AAAAAAAAAAAAAAA" 3 2] by simp
  have l: "unat ?lo < 2 ^ 64" using unsigned_less [of ?lo] by simp
  from e l have "unat ?hi = 1" by (cases "unat ?hi"; cases "unat ?hi - 1") simp_all
  with e have "unat ?lo = 2 ^ 62" by simp
  thus "?lo = 0x4000000000000000" by (simp add: word_unat_eq_iff)
  from \<open>unat ?hi = 1\<close> show "?hi = 1" by (simp add: word_unat_eq_iff)
qed

lemma clz_bit62: "builtin_clzll 0x4000000000000000 = Inr 1"
proof -
  have "bit_length (unat (0x4000000000000000 :: u64)) = Suc 62"
    by (rule bit_length_eq) simp_all
  thus ?thesis by (simp add: builtin_clzll_def)
qed

lemma step_failing_lazy:
  "step \<lparr>narr = mem(0 := 0x8000000000000000, 1 := 0x6AAAAAAAAAAAAAAA), wordoffset = 0,
         bitmask = 0x8000000000000000, lastword = 2, bitsize = 127, cvalue = 1, kvalue = 0,
         steps = 63, divsteps = 63, mulsteps = 0, laststep = 0\<rparr> =
   Inr \<lparr>narr = mem(0 := 0, 1 := 0x6AAAAAAAAAAAAAAA), wordoffset = 0,
         bitmask = 0x8000000000000000, lastword = 2, bitsize = 127, cvalue = 3, kvalue = 2,
         steps = 64, divsteps = 63, mulsteps = 1, laststep = 0\<rparr>"
  by (simp add: step_def branch_def is_even_def guard_def MAX_CVALUE_def MAX_KVALUE_def
      lazy_update_def hail_mary_def triple_kvalue_def triple_cvalue_def
      lazy_word_msb lazy_carry_msb bind_err_def cap_value word_le_nat_alt word_less_nat_alt
      refresh_bitsize_def fun_upd_twist)

lemma step_failing_reveal:
  "step \<lparr>narr = mem(0 := 0, 1 := 0x6AAAAAAAAAAAAAAA), wordoffset = 0,
         bitmask = 0x8000000000000000, lastword = 2, bitsize = 127, cvalue = 3, kvalue = 2,
         steps = 64, divsteps = 63, mulsteps = 1, laststep = 0\<rparr> =
   Inr \<lparr>narr = mem(0 := 0, 1 := 0x4000000000000000), wordoffset = 1,
         bitmask = 1, lastword = 2, bitsize = 63, cvalue = 3, kvalue = 1,
         steps = 65, divsteps = 64, mulsteps = 1, laststep = 0\<rparr>"
  by (simp add: step_def branch_def is_even_def even_branch_def reveal_def MSB64_def
      reveal_value bind_err_def cap_value refresh_bitsize_def clz_bit62 ctz_1)

lemma run_failing_input:
  "run 127 (fresh_state (mem(0 := 0x8000000000000000, 1 := 0x6AAAAAAAAAAAAAAA)) 2 127) =
   Some (Inr \<lparr>narr = mem(0 := 0, 1 := 0x4000000000000000), wordoffset = 1,
         bitmask = 0x4000000000000000, lastword = 2, bitsize = 1, cvalue = 3, kvalue = 1,
         steps = 127, divsteps = 126, mulsteps = 1, laststep = 0\<rparr>)"
proof -
  let ?m = "mem(0 := 0x8000000000000000, 1 := 0x6AAAAAAAAAAAAAAA)"
  let ?s0 = "fresh_state ?m 2 127"
  let ?s63 = "\<lparr>narr = ?m, wordoffset = 0,
         bitmask = 0x8000000000000000, lastword = 2, bitsize = 127, cvalue = 1, kvalue = 0,
         steps = 63, divsteps = 63, mulsteps = 0, laststep = 0\<rparr> :: state"
  let ?s64 = "\<lparr>narr = mem(0 := 0, 1 := 0x6AAAAAAAAAAAAAAA), wordoffset = 0,
         bitmask = 0x8000000000000000, lastword = 2, bitsize = 127, cvalue = 3, kvalue = 2,
         steps = 64, divsteps = 63, mulsteps = 1, laststep = 0\<rparr> :: state"
  let ?s65 = "\<lparr>narr = mem(0 := 0, 1 := 0x4000000000000000), wordoffset = 1,
         bitmask = 1, lastword = 2, bitsize = 63, cvalue = 3, kvalue = 1,
         steps = 65, divsteps = 64, mulsteps = 1, laststep = 0\<rparr> :: state"
  let ?sf = "\<lparr>narr = mem(0 := 0, 1 := 0x4000000000000000), wordoffset = 1,
         bitmask = 0x4000000000000000, lastword = 2, bitsize = 1, cvalue = 3, kvalue = 1,
         steps = 127, divsteps = 126, mulsteps = 1, laststep = 0\<rparr> :: state"
  have "run (63 + 64) ?s0 =
          run 64 (?s0\<lparr>bitmask := 2 ^ (0 + 63), steps := steps ?s0 + of_nat 63,
                        divsteps := divsteps ?s0 + of_nat 63\<rparr>)"
    by (rule run_shift_inner) (simp_all add: fresh_state_def cap_value)
  moreover have "?s0\<lparr>bitmask := 2 ^ (0 + 63), steps := steps ?s0 + of_nat 63,
                        divsteps := divsteps ?s0 + of_nat 63\<rparr> = ?s63"
    by (simp add: fresh_state_def)
  ultimately have p1: "run 127 ?s0 = run 64 ?s63" by simp
  have "run (Suc 63) ?s63 = run 63 ?s64"
  proof (rule run_step)
    show "bitsize ?s63 \<noteq> 1" by simp
    show "step ?s63 = Inr ?s64" by (rule step_failing_lazy)
  qed
  hence p2: "run 64 ?s63 = run 63 ?s64" by simp
  have "run (Suc 62) ?s64 = run 62 ?s65"
  proof (rule run_step)
    show "bitsize ?s64 \<noteq> 1" by simp
    show "step ?s64 = Inr ?s65" by (rule step_failing_reveal)
  qed
  hence p3: "run 63 ?s64 = run 62 ?s65" by simp
  have bl: "bit_length 4611686018427387904 = 63"
    using bit_length_eq [of 62 4611686018427387904] by simp
  have "run (62 + 0) ?s65 =
          run 0 (?s65\<lparr>bitmask := 2 ^ (0 + 62),
                    bitsize := word_of_nat (bit_length (unat (narr ?s65 (wordoffset ?s65))) - (0 + 62)),
                    steps := steps ?s65 + of_nat 62, divsteps := divsteps ?s65 + of_nat 62\<rparr>)"
    by (rule run_shift_last) (simp_all add: cap_value)
  moreover have "?s65\<lparr>bitmask := 2 ^ (0 + 62),
                    bitsize := word_of_nat (bit_length (unat (narr ?s65 (wordoffset ?s65))) - (0 + 62)),
                    steps := steps ?s65 + of_nat 62, divsteps := divsteps ?s65 + of_nat 62\<rparr> = ?sf"
    by (simp add: bl)
  ultimately have p4: "run 62 ?s65 = run 0 ?sf" by simp
  have p5: "run 0 ?sf = Some (Inr ?sf)" by simp
  from p1 p2 p3 p4 p5 show ?thesis by (simp only:)
qed

text \<open>C4 (\<open>bitsize\<close> is the exact bit length) fails on the code. The file below holds 127
  digits, the value \<open>0x6AAAAAAAAAAAAAAA * 2^64 + 2^63\<close>. After 63 halvings and one lazy
  evaluation the pending transform is \<open>(3, 2)\<close>; the next halving moves the cursor into the
  last word, which becomes \<open>2^62\<close> with the carry 1 left in \<open>kvalue\<close>. Line 171 computes
  \<open>bitsize\<close> from that word alone and ignores the carry: 62 halvings later \<open>bitsize\<close> is 1
  and the loop ends, while the tracked value is 5, of bit length 3.\<close>

theorem bitsize_premature_termination:
  "\<exists>s0 s. load (\<lambda>i. 0) (\<lambda>i. CHR 0x00)
       (''110101010101010101010101010101010101010101010101010101010101010'' @
        ''1000000000000000000000000000000000000000000000000000000000000000'' @ [CHR 0x0A]) = Inr s0 \<and>
     run 127 s0 = Some (Inr s) \<and> wordoffset s + 1 = lastword s \<and>
     bitsize s = 1 \<and> tracked s = 5 \<and> bit_length (tracked s) = 3"
proof -
  let ?sf = "\<lparr>narr = (\<lambda>i. 0)(0 := 0, 1 := 0x4000000000000000), wordoffset = 1,
         bitmask = 0x4000000000000000, lastword = 2, bitsize = 1, cvalue = 3, kvalue = 1,
         steps = 127, divsteps = 126, mulsteps = 1, laststep = 0\<rparr> :: state"
  have t: "tracked ?sf = 5" by (simp add: tracked_def upper_value_def)
  have "bit_length 5 = Suc 2" by (rule bit_length_eq) simp_all
  hence b: "bit_length (tracked ?sf) = 3" unfolding t by simp
  have "wordoffset ?sf + 1 = lastword ?sf" "bitsize ?sf = 1" by simp_all
  with load_failing_input [of "\<lambda>i. 0" "\<lambda>i. CHR 0x00"] run_failing_input [of "\<lambda>i. 0"] t b
  show ?thesis by blast
qed

section \<open>The actualization returns, and the lazy/eager equivalence\<close>

lemma words_value_bound: "words_value mem lo n < 2 ^ (64 * n)"
proof (induction n arbitrary: lo)
  case 0
  show ?case by simp
next
  case (Suc n)
  have w: "unat (mem lo) < 2 ^ 64" using unsigned_less [of "mem lo"] by simp
  have "words_value mem (Suc lo) n + 1 \<le> 2 ^ (64 * n)" using Suc.IH [of "Suc lo"] by simp
  hence "2 ^ 64 * (words_value mem (Suc lo) n + 1) \<le> 2 ^ 64 * 2 ^ (64 * n)"
    by (rule mult_le_mono2)
  hence "2 ^ 64 * words_value mem (Suc lo) n + 2 ^ 64 \<le> 2 ^ (64 * Suc n)"
    by (simp add: power_add)
  with w show ?case by simp
qed

lemma words_value_top_nonzero:
  assumes "2 ^ (64 * n) \<le> words_value mem lo (Suc n)"
  shows "mem (lo + n) \<noteq> 0"
proof
  assume "mem (lo + n) = 0"
  hence "words_value mem lo (Suc n) = words_value mem lo n"
    by (simp only: words_value_snoc mult_0_right unsigned_0 add_0_right)
  with assms words_value_bound [of mem lo n] show False by simp
qed

lemma words_value_top_lower:
  assumes "mem (lo + n) \<noteq> 0"
  shows "2 ^ (64 * n) \<le> words_value mem lo (Suc n)"
proof -
  from assms have "1 \<le> unat (mem (lo + n))" by (simp add: unat_gt_0 Suc_le_eq)
  hence "2 ^ (64 * n) * 1 \<le> 2 ^ (64 * n) * unat (mem (lo + n))" by (rule mult_le_mono2)
  thus ?thesis by (simp only: words_value_snoc mult_1_right trans_le_add2)
qed

lemma actualize_loop_empty: "actualize_loop lw lw c mem k = Inr (mem, k)"
  by (subst actualize_loop.simps) simp

lemma shifted_upper_value:
  assumes "wordoffset s < lastword s"
  shows "upper_value (shifted s) = upper_value s"
proof -
  have "words_value (narr (shifted s)) (0 + 1) (lastword s - wordoffset s - 1) =
        words_value (narr s) (wordoffset s + 1) (lastword s - wordoffset s - 1)"
    by (rule words_value_cong) (auto simp: shifted_def)
  thus ?thesis by (simp add: upper_value_def shifted_def)
qed

lemma compact_upper_value:
  assumes "wordoffset s < lastword s" "compact s = Inr s'"
  shows "upper_value s' = upper_value s"
    and "lastword s' - wordoffset s' = lastword s - wordoffset s"
    and "narr s' (wordoffset s') = narr s (wordoffset s)"
proof -
  from compact_cases [OF assms(2)] show "upper_value s' = upper_value s"
    using shifted_upper_value [OF assms(1)] by auto
  from compact_cases [OF assms(2)] show "lastword s' - wordoffset s' = lastword s - wordoffset s"
    by (auto simp: shifted_def)
  from compact_cases [OF assms(2)] show "narr s' (wordoffset s') = narr s (wordoffset s)"
    using shifted_tracked(2) [OF assms(1)] by (auto simp: shifted_def)
qed

lemma report_upper_value: "upper_value (report s) = upper_value s"
  by (simp add: upper_value_def report_fields)


lemma actualize_upper_value:
  assumes ok: "cursor_ok s" and res: "actualize s = Inr s'"
  shows "upper_value s' = unat (cvalue s) * upper_value s + unat (kvalue s)"
proof -
  from res obtain mem k mem' lw clz ctz s2 where
    loop: "actualize_loop (wordoffset s + 1) (lastword s) (cvalue s) (narr s) (kvalue s) = Inr (mem, k)"
    and co: "carry_out mem (lastword s) k = Inr (mem', lw)"
    and lw: "1 \<le> lw" "lw \<le> SCRATCHPAD div 8"
    and cp: "compact (s\<lparr>narr := mem', lastword := lw, cvalue := 1, kvalue := 0,
       bitsize := word_of_int ((int lw - 0 - 1) * 64 + 64 - int clz - int ctz)\<rparr>) = Inr s2"
    and s': "s' = report s2"
    by (rule actualizeE)
  let ?s1 = "s\<lparr>narr := mem', lastword := lw, cvalue := 1, kvalue := 0,
       bitsize := word_of_int ((int lw - 0 - 1) * 64 + 64 - int clz - int ctz)\<rparr>"
  let ?p = "wordoffset s + 1"
  from ok have rng: "wordoffset s < lastword s" "lastword s \<le> SCRATCHPAD div 8"
    by (simp_all add: cursor_ok_def)
  hence ple: "?p \<le> lastword s" by simp
  from actualize_loop_value [OF loop ple]
  have lv: "words_value mem ?p (lastword s - ?p) + 2 ^ (64 * (lastword s - ?p)) * unat k =
             unat (cvalue s) * words_value (narr s) ?p (lastword s - ?p) + unat (kvalue s)"
    by simp
  from carry_out_value [OF co ple]
  have cv: "words_value mem' ?p (lw - ?p) =
              words_value mem ?p (lastword s - ?p) + 2 ^ (64 * (lastword s - ?p)) * unat k"
    and mono: "lastword s \<le> lw" by simp_all
  have up: "upper_value ?s1 = unat (cvalue s) * upper_value s + unat (kvalue s)"
    unfolding upper_value_def using cv lv by simp
  have lt: "wordoffset ?s1 < lastword ?s1" using rng mono by simp
  from compact_upper_value(1) [OF lt cp] up show ?thesis
    unfolding s' by (simp only: report_upper_value)
qed

lemma scale_lower:
  fixes a b c k :: nat
  assumes "a \<le> b" "1 \<le> c"
  shows "a \<le> c * b + k"
proof -
  have "b \<le> c * b" using assms(2) by (cases c) simp_all
  with assms(1) have "a \<le> c * b" by (rule le_trans)
  thus ?thesis by (rule trans_le_add1)
qed

lemma actualize_total:
  assumes ok: "cursor_ok s" and room: "lastword s < SCRATCHPAD div 8" and c: "cvalue s \<noteq> 0"
    and top: "(wordoffset s + 1 = lastword s \<and> kvalue s \<noteq> 0) \<or> narr s (lastword s - 1) \<noteq> 0"
  shows "\<exists>s'. actualize s = Inr s' \<and> narr s' (lastword s' - 1) \<noteq> 0"
proof -
  from ok obtain j where j: "j < 64" "bitmask s = 2 ^ j"
    and rng: "wordoffset s < lastword s" "lastword s \<le> SCRATCHPAD div 8"
    by (rule cursor_okD)
  let ?p = "wordoffset s + 1"
  from actualize_loop_total [OF rng(2)] obtain mem k where
    loop: "actualize_loop ?p (lastword s) (cvalue s) (narr s) (kvalue s) = Inr (mem, k)"
    by blast
  from rng have ple: "?p \<le> lastword s" by simp
  from actualize_loop_value [OF loop ple]
  have lv: "words_value mem ?p (lastword s - ?p) + 2 ^ (64 * (lastword s - ?p)) * unat k =
             unat (cvalue s) * words_value (narr s) ?p (lastword s - ?p) + unat (kvalue s)"
    by simp
  define mem' where "mem' = (if k \<noteq> 0 then mem(lastword s := k) else mem)"
  define lw where "lw = (if k \<noteq> 0 then lastword s + 1 else lastword s)"
  have co: "carry_out mem (lastword s) k = Inr (mem', lw)"
    using room by (simp add: carry_out_def mem'_def lw_def)
  have lw: "1 \<le> lw" "lw \<le> SCRATCHPAD div 8" "wordoffset s < lw"
    using rng room by (simp_all add: lw_def)
  have top': "mem' (lw - 1) \<noteq> 0"
  proof (cases "k = 0")
    case False
    thus ?thesis by (simp add: mem'_def lw_def)
  next
    case k0: True
    hence eqs: "mem' = mem" "lw = lastword s" by (simp_all add: mem'_def lw_def)
    show ?thesis
    proof (cases "?p = lastword s")
      case True
      with loop have "actualize_loop (lastword s) (lastword s) (cvalue s) (narr s) (kvalue s) = Inr (mem, k)"
        by simp
      hence "mem = narr s" "k = kvalue s" by (simp_all only: actualize_loop_empty sum.inject prod.inject)
      with top k0 show ?thesis by (simp add: eqs)
    next
      case False
      with ple obtain n where n: "lastword s - ?p = Suc n"
        by (cases "lastword s - ?p") simp_all
      hence idx: "?p + n = lastword s - 1" by simp
      from top False have "narr s (lastword s - 1) \<noteq> 0" by simp
      hence "narr s (?p + n) \<noteq> 0" using idx by simp
      hence lo: "2 ^ (64 * n) \<le> words_value (narr s) ?p (Suc n)" by (rule words_value_top_lower)
      from c have "1 \<le> unat (cvalue s)" by (simp add: unat_gt_0 Suc_le_eq)
      with lo have "2 ^ (64 * n) \<le> unat (cvalue s) * words_value (narr s) ?p (Suc n) + unat (kvalue s)"
        by (rule scale_lower)
      also have "\<dots> = words_value mem ?p (Suc n)"
        using lv k0 unfolding n by (simp only: unsigned_0 mult_0_right add_0_right)
      finally have "mem (?p + n) \<noteq> 0" by (rule words_value_top_nonzero)
      thus ?thesis using idx by (simp add: eqs)
    qed
  qed
  hence clz: "builtin_clzll (mem' (lw - 1)) = Inr (64 - bit_length (unat (mem' (lw - 1))))"
    by (rule clz_nonzero)
  have ctz: "builtin_ctzll (bitmask s) = Inr j"
    unfolding j(2) using j(1) by (rule ctz_two_power)
  define s1 where "s1 = s\<lparr>narr := mem', lastword := lw, cvalue := 1, kvalue := 0,
       bitsize := word_of_int ((int lw - 0 - 1) * 64 + 64
          - int (64 - bit_length (unat (mem' (lw - 1)))) - int j)\<rparr>"
  have f1: "narr s1 = mem'" "lastword s1 = lw" "wordoffset s1 = wordoffset s"
    by (simp_all add: s1_def)
  have cp: "\<exists>s2. compact s1 = Inr s2 \<and> narr s2 (lastword s2 - 1) \<noteq> 0"
  proof (cases "lastword s1 \<ge> SCRATCHPAD div 8 - 2")
    case False
    hence "compact s1 = Inr s1" by (simp add: compact_def)
    with top' f1 show ?thesis by simp
  next
    case True
    hence "compact s1 = Inr (shifted s1)" using lw f1 by (simp add: compact_def)
    moreover have "narr (shifted s1) (lastword (shifted s1) - 1) = mem' (lw - 1)"
      using lw f1 by (simp add: shifted_def)
    ultimately show ?thesis using top' by simp
  qed
  then obtain s2 where s2: "compact s1 = Inr s2" "narr s2 (lastword s2 - 1) \<noteq> 0" by blast
  have "actualize s = Inr (report s2)"
    unfolding actualize_def
    using loop co lw clz ctz s2(1) unfolding s1_def by (simp add: bind_err_def)
  moreover have "narr (report s2) (lastword (report s2) - 1) \<noteq> 0"
    using s2(2) by (simp add: report_fields)
  ultimately show ?thesis by blast
qed


lemma refresh_upper_value:
  assumes "refresh_bitsize s = Inr s'"
  shows "upper_value s' = upper_value s"
proof -
  from assms have "s' = s \<or> (\<exists>b. s' = s\<lparr>bitsize := b\<rparr>)"
    by (auto simp: refresh_bitsize_def bind_err_Inr_iff split: if_splits)
  thus ?thesis by (auto simp: upper_value_def)
qed

lemma refresh_total:
  assumes "cursor_ok s" "narr s (lastword s - 1) \<noteq> 0"
  shows "\<exists>s'. refresh_bitsize s = Inr s'"
proof (cases "wordoffset s + 1 = lastword s")
  case True
  from assms(1) obtain j where j: "j < 64" "bitmask s = 2 ^ j"
    and rng: "wordoffset s < lastword s" "lastword s \<le> SCRATCHPAD div 8"
    by (rule cursor_okD)
  from rng have inb: "wordoffset s < SCRATCHPAD div 8" by simp
  from True have "lastword s - 1 = wordoffset s" by simp
  with assms(2) have nz: "narr s (wordoffset s) \<noteq> 0" by simp
  from refresh_adjacent [OF True inb nz j] show ?thesis by blast
next
  case False
  thus ?thesis by (simp add: refresh_not_adjacent)
qed

lemma flush_target:
  assumes ok: "cursor_ok s" and ev: "event_of s = LazyFlush \<or> event_of s = Flush"
  shows "branch s = actualize (if event_of s = Flush then s else lazy_update s)"
    and "cursor_ok (if event_of s = Flush then s else lazy_update s)"
    and "event_of s = LazyFlush \<Longrightarrow> hail_mary (lazy_update s) \<and> guard s"
proof -
  from ev have odd: "\<not> is_even s" by (auto simp: event_of_def split: if_splits)
  show "branch s = actualize (if event_of s = Flush then s else lazy_update s)"
    using ev odd by (auto simp: event_of_def branch_def Let_def split: if_splits)
  show "cursor_ok (if event_of s = Flush then s else lazy_update s)"
  proof (cases "event_of s = Flush")
    case True
    with ok show ?thesis by simp
  next
    case False
    with ev odd have "guard s" by (auto simp: event_of_def split: if_splits)
    from lazy_tracked(2) [OF ok odd this] False show ?thesis by simp
  qed
  show "event_of s = LazyFlush \<Longrightarrow> hail_mary (lazy_update s) \<and> guard s"
    by (auto simp: event_of_def split: if_splits)
qed

lemma step_flush_upper_value:
  assumes ok: "cursor_ok s" and ev: "event_of s = LazyFlush \<or> event_of s = Flush"
    and st: "step s = Inr s'"
  shows "upper_value s' =
           (let t = (if event_of s = Flush then s else lazy_update s)
            in unat (cvalue t) * upper_value t + unat (kvalue t))"
proof -
  let ?t = "if event_of s = Flush then s else lazy_update s"
  from st obtain s1 where b: "branch s = Inr s1" and r: "refresh_bitsize s1 = Inr s'"
    by (rule stepE)
  from b flush_target(1) [OF ok ev] have a: "actualize ?t = Inr s1" by simp
  from actualize_upper_value [OF flush_target(2) [OF ok ev] a] refresh_upper_value [OF r]
  show ?thesis by (simp only: Let_def)
qed

lemma step_flush_total:
  assumes ok: "cursor_ok s" and room: "lastword s < SCRATCHPAD div 8" and c: "cvalue s \<noteq> 0"
    and ev: "event_of s = LazyFlush \<or> (event_of s = Flush \<and> narr s (lastword s - 1) \<noteq> 0)"
  shows "\<exists>s'. step s = Inr s'"
proof -
  let ?t = "if event_of s = Flush then s else lazy_update s"
  from ev have ev': "event_of s = LazyFlush \<or> event_of s = Flush" by blast
  note tg = flush_target [OF ok ev']
  have lwt: "lastword ?t = lastword s" by (simp add: lazy_update_def Let_def)
  have ct: "cvalue ?t \<noteq> 0"
  proof (cases "event_of s = Flush")
    case True
    with c show ?thesis by simp
  next
    case False
    with ev have "guard s" using tg(3) by blast
    hence "unat (triple_cvalue (cvalue s)) = 3 * unat (cvalue s)"
      by (simp add: guard_def unat_triple_cvalue)
    moreover from c have "unat (cvalue s) \<noteq> 0" by (simp add: unat_eq_0)
    ultimately have "triple_cvalue (cvalue s) \<noteq> 0" by (auto simp: unat_eq_0 [symmetric] simp del: unat_eq_0)
    with False show ?thesis by (simp add: lazy_update_def Let_def)
  qed
  have top: "(wordoffset ?t + 1 = lastword ?t \<and> kvalue ?t \<noteq> 0) \<or> narr ?t (lastword ?t - 1) \<noteq> 0"
  proof (cases "event_of s = Flush")
    case True
    with ev show ?thesis by simp
  next
    case False
    with ev have "hail_mary (lazy_update s)" using tg(3) by blast
    with False show ?thesis by (simp add: hail_mary_def)
  qed
  from room lwt have room': "lastword ?t < SCRATCHPAD div 8" by simp
  from actualize_total [OF tg(2) room' ct top] obtain s1 where
    a: "actualize ?t = Inr s1" and top1: "narr s1 (lastword s1 - 1) \<noteq> 0" by blast
  from actualize_tracked(2) [OF tg(2) a] have ok1: "cursor_ok s1" .
  from refresh_total [OF ok1 top1] obtain s' where r: "refresh_bitsize s1 = Inr s'" ..
  from ok have "wordoffset s < SCRATCHPAD div 8" by (simp add: cursor_ok_def)
  with a r tg(1) have "step s = Inr s'" by (simp add: step_def bind_err_def)
  thus ?thesis ..
qed

lemma exec_flushed:
  assumes "0 < lw" and "lw \<le> SCRATCHPAD div 8"
    and "exec (fresh_state mem lw bs) evs s"
    and "evs \<noteq> []" and "last evs = LazyFlush \<or> last evs = Flush"
  shows "cvalue s = 1 \<and> kvalue s = 0 \<and>
         buffer_value s = eager evs (buffer_value (fresh_state mem lw bs))"
proof -
  let ?s0 = "fresh_state mem lw bs"
  have wf0: "state_ok ?s0" using assms(1,2) by (rule fresh_state_wf)
  from exec_tracked [OF assms(3) wf0] have wfs: "state_ok s" and t: "tracked s = eager evs (tracked ?s0)"
    by simp_all
  from assms(3,4,5) have "cvalue s = 1 \<and> kvalue s = 0"
  proof (cases rule: exec.cases)
    case exec_start
    with assms(4) show ?thesis by simp
  next
    case (exec_step evs' s1)
    from exec_tracked [OF exec_step(2) wf0] have "state_ok s1" by simp
    hence "cursor_ok s1" by (simp add: state_ok_def)
    moreover from exec_step(1) assms(5) have "event_of s1 = LazyFlush \<or> event_of s1 = Flush" by simp
    ultimately show ?thesis using step_flushed [OF exec_step(4)] by simp
  qed
  moreover from wfs have "wordoffset s < lastword s" by (simp add: state_ok_def cursor_ok_def)
  ultimately have "buffer_value s = tracked s" by (intro buffer_value_tracked) simp_all
  with t fresh_state_tracked [OF assms(1)] \<open>cvalue s = 1 \<and> kvalue s = 0\<close> show ?thesis by simp
qed

text \<open>C1 (lazy/eager equivalence). Take any starting buffer of at least one word, the
  cursor at its bit 0 and no pending transform, any execution of the loop from it, and the
  state \<open>s\<close> it has reached; let the next iteration run the actualization (alone, event
  \<open>Flush\<close>, or after a lazy evaluation, event \<open>LazyFlush\<close>), with \<open>t\<close> the state on entry to
  line 139 (\<open>s\<close> itself, or \<open>s\<close> after lines 124-135). Then the iteration returns a state
  unless the carry remaining after the last word has no room in the scratchpad
  (\<open>lastword\<close> is already the capacity) or the top word of the number is 0 (\<open>clz\<close> of 0 on
  line 152); in particular the loop of lines 141-146 stays inside the buffer over every
  word above the cursor. In the state \<open>s'\<close> it returns, the pending transform is the identity,
  the integer held by the words above the cursor is \<open>cvalue t * x + kvalue t\<close> for the integer
  \<open>x\<close> they held in \<open>t\<close> (every word multiplied, the carries propagated, the last carry
  appended), and the integer the buffer holds from the cursor is the starting integer after
  the reference computation: a halving for each even iteration and \<open>3x + 1\<close> for each lazy
  evaluation, one step at a time in unbounded arithmetic.\<close>

theorem lazy_eager_equivalence:
  assumes "0 < lw" and "lw \<le> SCRATCHPAD div 8"
    and "exec (fresh_state mem lw bs) evs s"
    and "bitsize s \<noteq> 1"
    and "event_of s = LazyFlush \<or> event_of s = Flush"
  shows "case step s of
           Inl e \<Rightarrow> lastword s = SCRATCHPAD div 8 \<or>
                    (event_of s = Flush \<and> narr s (lastword s - 1) = 0)
         | Inr s' \<Rightarrow>
             cvalue s' = 1 \<and> kvalue s' = 0 \<and>
             upper_value s' =
               (let t = (if event_of s = Flush then s else lazy_update s)
                in unat (cvalue t) * upper_value t + unat (kvalue t)) \<and>
             buffer_value s' = eager (evs @ [event_of s]) (buffer_value (fresh_state mem lw bs))"
proof (cases "step s")
  case (Inr s')
  have wf0: "state_ok (fresh_state mem lw bs)" using assms(1,2) by (rule fresh_state_wf)
  from exec_tracked [OF assms(3) wf0] have ok: "cursor_ok s" by (simp add: state_ok_def)
  from assms(3,4) Inr have ex: "exec (fresh_state mem lw bs) (evs @ [event_of s]) s'"
    by (rule exec_step)
  have "evs @ [event_of s] \<noteq> []" by simp
  moreover from assms(5)
  have "last (evs @ [event_of s]) = LazyFlush \<or> last (evs @ [event_of s]) = Flush" by simp
  ultimately have "cvalue s' = 1 \<and> kvalue s' = 0 \<and>
      buffer_value s' = eager (evs @ [event_of s]) (buffer_value (fresh_state mem lw bs))"
    by (rule exec_flushed [OF assms(1,2) ex])
  with step_flush_upper_value [OF ok assms(5) Inr] Inr show ?thesis by simp
next
  case (Inl e)
  have wf0: "state_ok (fresh_state mem lw bs)" using assms(1,2) by (rule fresh_state_wf)
  from exec_tracked [OF assms(3) wf0] have ok: "cursor_ok s" by (simp add: state_ok_def)
  hence le: "lastword s \<le> SCRATCHPAD div 8" by (simp add: cursor_ok_def)
  from exec_cvalue [OF assms(3)] have "unat (cvalue s) = 3 ^ pending evs"
    by (simp add: fresh_state_def)
  hence c: "cvalue s \<noteq> 0" by auto
  have "\<not> (lastword s < SCRATCHPAD div 8 \<and>
            (event_of s = LazyFlush \<or> (event_of s = Flush \<and> narr s (lastword s - 1) \<noteq> 0)))"
  proof
    assume "lastword s < SCRATCHPAD div 8 \<and>
            (event_of s = LazyFlush \<or> (event_of s = Flush \<and> narr s (lastword s - 1) \<noteq> 0))"
    hence "\<exists>s'. step s = Inr s'" using step_flush_total [OF ok _ c] by blast
    with Inl show False by simp
  qed
  with le assms(5) have "lastword s = SCRATCHPAD div 8 \<or>
      (event_of s = Flush \<and> narr s (lastword s - 1) = 0)" by auto
  with Inl show ?thesis by simp
qed

section \<open>A run that actualizes over two words\<close>

lemma unat_three_power:
  assumes "g \<le> 40" shows "unat (3 ^ g :: u64) = 3 ^ g"
proof -
  have "(3 ^ g :: u64) = word_of_nat (3 ^ g)" by simp
  hence "unat (3 ^ g :: u64) = 3 ^ g mod 2 ^ LENGTH(64)" by (simp only: unat_of_nat)
  hence e: "unat (3 ^ g :: u64) = 3 ^ g mod 2 ^ 64" by simp
  have "(3::nat) ^ g \<le> 3 ^ 40" using assms by (simp only: power_increasing_iff)
  also have "(3::nat) ^ 40 < 2 ^ 64" by simp
  finally show ?thesis using e by simp
qed

lemma unat_three_power_pred:
  assumes "g \<le> 40" shows "unat (3 ^ g - 1 :: u64) = 3 ^ g - 1"
proof -
  have "unat (3 ^ g :: u64) \<noteq> 0" by (simp only: unat_three_power [OF assms]) simp
  hence "(3 ^ g :: u64) \<noteq> 0" by auto
  hence "unat (3 ^ g - 1 :: u64) = unat (3 ^ g :: u64) - 1" by (rule unat_minus_one)
  thus ?thesis by (simp only: unat_three_power [OF assms])
qed

lemma guard_three_power:
  assumes "g \<le> 39"
  shows "(3 ^ g :: u64) \<le> MAX_CVALUE" and "(3 ^ g - 1 :: u64) \<le> MAX_KVALUE"
proof -
  from assms have g: "g \<le> 40" by simp
  have le: "(3::nat) ^ g \<le> 3 ^ 39" using assms by (simp only: power_increasing_iff)
  have m: "unat MAX_CVALUE = 3 ^ 39" by (simp add: MAX_CVALUE_def)
  show "(3 ^ g :: u64) \<le> MAX_CVALUE"
    unfolding word_le_nat_alt unat_three_power [OF g] m by (rule le)
  have "(3::nat) ^ 39 \<le> 6148914691236517204" by simp
  with le have "(3::nat) ^ g - 1 \<le> 6148914691236517204" by simp
  thus "(3 ^ g - 1 :: u64) \<le> MAX_KVALUE"
    unfolding word_le_nat_alt unat_three_power_pred [OF g] by (simp add: MAX_KVALUE_def)
qed

lemma guard_three_power_40: "\<not> (3 ^ 40 :: u64) \<le> MAX_CVALUE"
proof -
  have m: "unat MAX_CVALUE = 3 ^ 39" by (simp add: MAX_CVALUE_def)
  have "\<not> (3::nat) ^ 40 \<le> 3 ^ 39" by (simp only: power_increasing_iff)
  thus ?thesis unfolding word_le_nat_alt m unat_three_power [OF order_refl] .
qed

lemma unat_neg_two_power:
  assumes "j < 64" shows "unat (- (2 ^ j) :: u64) = 2 ^ 64 - 2 ^ j"
proof -
  have nz: "(2 ^ j :: u64) \<noteq> 0" using assms by (rule two_power_neq_0)
  have "(- (2 ^ j) :: u64) = - 1 - (2 ^ j - 1)" by simp
  also have "unat \<dots> = unat (- 1 :: u64) - unat (2 ^ j - 1 :: u64)"
    by (rule unat_sub) simp
  also have "unat (2 ^ j - 1 :: u64) = unat (2 ^ j :: u64) - 1" using nz by (rule unat_minus_one)
  also have "unat (2 ^ j :: u64) = 2 ^ j" using assms by (rule unat_two_power)
  also have "unat (- 1 :: u64) = 2 ^ 64 - 1" by (simp add: unsigned_minus_1_eq_mask mask_eq_exp_minus_1)
  finally show ?thesis by simp
qed

lemma neg_two_power_bit:
  assumes "g < 64"
  shows "(- (2 ^ g) :: u64) AND 2 ^ g \<noteq> 0"
    and "(- (2 ^ Suc g) :: u64) AND 2 ^ g = 0"
  unfolding and_exp_eq_0_iff_not_bit bit_minus_exp_iff using assms by simp_all

lemma lazy_word_neg: "lazy_word (- (2 ^ g)) (2 ^ g) = - (2 ^ Suc g)"
  by (simp add: lazy_word_def lazy_twice_def push_bit_eq_mult)

lemma lazy_twice_neg: "lazy_twice (- (2 ^ g)) = - (2 ^ Suc g)"
  by (simp add: lazy_twice_def push_bit_eq_mult)

lemma lazy_carry_neg:
  assumes "g < 63" shows "lazy_carry (- (2 ^ g)) (2 ^ g) = 2"
proof -
  from assms have g: "g < 64" "Suc g < 64" by simp_all
  have "(2::nat) ^ g < 2 ^ Suc g" by simp
  moreover have "(2::nat) ^ g < 2 ^ 64" using g(1) by (simp only: power_strict_increasing_iff)
  ultimately have "(2::nat) ^ 64 - 2 ^ Suc g < 2 ^ 64 - 2 ^ g" by (rule diff_less_mono2)
  hence "(- (2 ^ Suc g) :: u64) < - (2 ^ g)"
    unfolding word_less_nat_alt by (simp only: unat_neg_two_power g)
  thus ?thesis
    unfolding lazy_carry_def lazy_word_neg lazy_twice_neg by simp
qed

lemma triple_three_power:
  "triple_cvalue (3 ^ g) = 3 ^ Suc g" "triple_kvalue (3 ^ g - 1) 2 = 3 ^ Suc g - 1"
  by (simp_all add: triple_cvalue_def triple_kvalue_def push_bit_eq_mult)

lemma ones_lazy_step:
  assumes "g \<le> 39"
  shows "step \<lparr>narr = (\<lambda>i. 0)(1 := 1, 0 := - (2 ^ g)), wordoffset = 0, bitmask = 2 ^ g,
       lastword = 2, bitsize = 65, cvalue = 3 ^ g, kvalue = 3 ^ g - 1,
       steps = of_nat g + of_nat g, divsteps = of_nat g, mulsteps = of_nat g, laststep = 0\<rparr> =
     Inr \<lparr>narr = (\<lambda>i. 0)(1 := 1, 0 := - (2 ^ Suc g)), wordoffset = 0, bitmask = 2 ^ g,
       lastword = 2, bitsize = 65, cvalue = 3 ^ Suc g, kvalue = 3 ^ Suc g - 1,
       steps = of_nat g + of_nat g + 1, divsteps = of_nat g, mulsteps = of_nat g + 1, laststep = 0\<rparr>"
    and "event_of \<lparr>narr = (\<lambda>i. 0)(1 := 1, 0 := - (2 ^ g)), wordoffset = 0, bitmask = 2 ^ g,
       lastword = 2, bitsize = 65, cvalue = 3 ^ g, kvalue = 3 ^ g - 1,
       steps = of_nat g + of_nat g, divsteps = of_nat g, mulsteps = of_nat g, laststep = 0\<rparr> = LazyStep"
proof -
  let ?T = "\<lparr>narr = (\<lambda>i. 0)(1 := 1, 0 := - (2 ^ g)), wordoffset = 0, bitmask = 2 ^ g,
       lastword = 2, bitsize = 65, cvalue = 3 ^ g, kvalue = 3 ^ g - 1,
       steps = of_nat g + of_nat g, divsteps = of_nat g, mulsteps = of_nat g, laststep = 0\<rparr>"
  let ?U = "\<lparr>narr = (\<lambda>i. 0)(1 := 1, 0 := - (2 ^ Suc g)), wordoffset = 0, bitmask = 2 ^ g,
       lastword = 2, bitsize = 65, cvalue = 3 ^ Suc g, kvalue = 3 ^ Suc g - 1,
       steps = of_nat g + of_nat g + 1, divsteps = of_nat g, mulsteps = of_nat g + 1, laststep = 0\<rparr>"
  from assms have g: "g < 63" "g < 64" by simp_all
  have ne: "\<not> is_even ?T" by (simp add: is_even_def neg_two_power_bit(1) [OF g(2)])
  have gd: "guard ?T" by (simp add: guard_def guard_three_power [OF assms])
  have lu: "lazy_update ?T = ?U"
    by (simp add: lazy_update_def Let_def lazy_word_neg lazy_carry_neg [OF g(1)] triple_three_power
        del: power_Suc)
  have hm: "\<not> hail_mary ?U" by (simp add: hail_mary_def)
  have b: "branch ?T = Inr ?U"
    unfolding branch_def Let_def lu using ne gd hm by (simp only: if_True if_False)
  have r: "refresh_bitsize ?U = Inr ?U" by (rule refresh_not_adjacent) simp
  show "step ?T = Inr ?U"
    unfolding step_def b using r by (simp add: bind_err_def cap_value)
  show "event_of ?T = LazyStep"
    unfolding event_of_def lu using ne gd hm by (simp only: if_True if_False)
qed

lemma ones_even_step:
  assumes "g \<le> 39"
  shows "step \<lparr>narr = (\<lambda>i. 0)(1 := 1, 0 := - (2 ^ Suc g)), wordoffset = 0, bitmask = 2 ^ g,
       lastword = 2, bitsize = 65, cvalue = 3 ^ Suc g, kvalue = 3 ^ Suc g - 1,
       steps = of_nat g + of_nat g + 1, divsteps = of_nat g, mulsteps = of_nat g + 1, laststep = 0\<rparr> =
     Inr \<lparr>narr = (\<lambda>i. 0)(1 := 1, 0 := - (2 ^ (Suc g))), wordoffset = 0, bitmask = 2 ^ (Suc g),
       lastword = 2, bitsize = 65, cvalue = 3 ^ (Suc g), kvalue = 3 ^ (Suc g) - 1,
       steps = of_nat (Suc g) + of_nat (Suc g), divsteps = of_nat (Suc g), mulsteps = of_nat (Suc g), laststep = 0\<rparr>"
    and "event_of \<lparr>narr = (\<lambda>i. 0)(1 := 1, 0 := - (2 ^ Suc g)), wordoffset = 0, bitmask = 2 ^ g,
       lastword = 2, bitsize = 65, cvalue = 3 ^ Suc g, kvalue = 3 ^ Suc g - 1,
       steps = of_nat g + of_nat g + 1, divsteps = of_nat g, mulsteps = of_nat g + 1, laststep = 0\<rparr> = EvenStep"
proof -
  let ?U = "\<lparr>narr = (\<lambda>i. 0)(1 := 1, 0 := - (2 ^ Suc g)), wordoffset = 0, bitmask = 2 ^ g,
       lastword = 2, bitsize = 65, cvalue = 3 ^ Suc g, kvalue = 3 ^ Suc g - 1,
       steps = of_nat g + of_nat g + 1, divsteps = of_nat g, mulsteps = of_nat g + 1, laststep = 0\<rparr>"
  let ?T = "\<lparr>narr = (\<lambda>i. 0)(1 := 1, 0 := - (2 ^ (Suc g))), wordoffset = 0, bitmask = 2 ^ (Suc g),
       lastword = 2, bitsize = 65, cvalue = 3 ^ (Suc g), kvalue = 3 ^ (Suc g) - 1,
       steps = of_nat (Suc g) + of_nat (Suc g), divsteps = of_nat (Suc g), mulsteps = of_nat (Suc g), laststep = 0\<rparr>"
  from assms have g: "g < 63" "g < 64" by simp_all
  have ev: "is_even ?U" by (simp add: is_even_def neg_two_power_bit(2) [OF g(2)] del: power_Suc)
  have nm: "(2 ^ g :: u64) \<noteq> MSB64" using g(1) by (simp add: two_power_eq_MSB64 [OF g(2)])
  have b: "branch ?U = Inr ?T"
    unfolding branch_def using ev nm
    by (simp add: even_branch_def push_bit_eq_mult)
  have r: "refresh_bitsize ?T = Inr ?T" by (rule refresh_not_adjacent) simp
  show "step ?U = Inr ?T"
    unfolding step_def b using r by (simp add: bind_err_def cap_value)
  show "event_of ?U = EvenStep"
    unfolding event_of_def using ev by (simp only: if_True)
qed

lemma concat_replicate_snoc: "concat (replicate (Suc g) xs) = concat (replicate g xs) @ xs"
  by (induction g) simp_all

lemma ones_exec:
  "g \<le> 40 \<Longrightarrow>
   exec (fresh_state ((\<lambda>i. 0)(1 := 1, 0 := - 1)) 2 65) (concat (replicate g [LazyStep, EvenStep]))
     \<lparr>narr = (\<lambda>i. 0)(1 := 1, 0 := - (2 ^ g)), wordoffset = 0, bitmask = 2 ^ g,
       lastword = 2, bitsize = 65, cvalue = 3 ^ g, kvalue = 3 ^ g - 1,
       steps = of_nat g + of_nat g, divsteps = of_nat g, mulsteps = of_nat g, laststep = 0\<rparr>"
proof (induction g)
  case 0
  have eq: "\<lparr>narr = (\<lambda>i. 0)(1 := 1, 0 := - (2 ^ (0::nat))), wordoffset = 0, bitmask = 2 ^ (0::nat),
       lastword = 2, bitsize = 65, cvalue = 3 ^ (0::nat), kvalue = 3 ^ (0::nat) - 1,
       steps = of_nat (0::nat) + of_nat (0::nat), divsteps = of_nat (0::nat), mulsteps = of_nat (0::nat), laststep = 0\<rparr> =
     fresh_state ((\<lambda>i. 0)(1 := 1, 0 := - 1)) 2 65"
    by (simp add: fresh_state_def)
  have l: "concat (replicate 0 [LazyStep, EvenStep]) = []" by simp
  show ?case unfolding l eq by (rule exec_start)
next
  case (Suc g)
  from Suc.prems have g: "g \<le> 39" by simp
  hence "g \<le> 40" by simp
  hence ex: "exec (fresh_state ((\<lambda>i. 0)(1 := 1, 0 := - 1)) 2 65) (concat (replicate g [LazyStep, EvenStep]))
     \<lparr>narr = (\<lambda>i. 0)(1 := 1, 0 := - (2 ^ g)), wordoffset = 0, bitmask = 2 ^ g,
       lastword = 2, bitsize = 65, cvalue = 3 ^ g, kvalue = 3 ^ g - 1,
       steps = of_nat g + of_nat g, divsteps = of_nat g, mulsteps = of_nat g, laststep = 0\<rparr>"
    by (rule Suc.IH)
  have b: "bitsize \<lparr>narr = (\<lambda>i. 0)(1 := 1, 0 := - (2 ^ g)), wordoffset = 0, bitmask = 2 ^ g,
       lastword = 2, bitsize = 65, cvalue = 3 ^ g, kvalue = 3 ^ g - 1,
       steps = of_nat g + of_nat g, divsteps = of_nat g, mulsteps = of_nat g, laststep = 0\<rparr> \<noteq> 1"
    "bitsize \<lparr>narr = (\<lambda>i. 0)(1 := 1, 0 := - (2 ^ Suc g)), wordoffset = 0, bitmask = 2 ^ g,
       lastword = 2, bitsize = 65, cvalue = 3 ^ Suc g, kvalue = 3 ^ Suc g - 1,
       steps = of_nat g + of_nat g + 1, divsteps = of_nat g, mulsteps = of_nat g + 1, laststep = 0\<rparr> \<noteq> 1"
    by simp_all
  from exec_step [OF ex b(1) ones_lazy_step(1) [OF g]]
  have "exec (fresh_state ((\<lambda>i. 0)(1 := 1, 0 := - 1)) 2 65) (concat (replicate g [LazyStep, EvenStep]) @ [LazyStep])
     \<lparr>narr = (\<lambda>i. 0)(1 := 1, 0 := - (2 ^ Suc g)), wordoffset = 0, bitmask = 2 ^ g,
       lastword = 2, bitsize = 65, cvalue = 3 ^ Suc g, kvalue = 3 ^ Suc g - 1,
       steps = of_nat g + of_nat g + 1, divsteps = of_nat g, mulsteps = of_nat g + 1, laststep = 0\<rparr>"
    by (simp only: ones_lazy_step(2) [OF g])
  from exec_step [OF this b(2) ones_even_step(1) [OF g]]
  have "exec (fresh_state ((\<lambda>i. 0)(1 := 1, 0 := - 1)) 2 65) ((concat (replicate g [LazyStep, EvenStep]) @ [LazyStep]) @ [EvenStep])
     \<lparr>narr = (\<lambda>i. 0)(1 := 1, 0 := - (2 ^ (Suc g))), wordoffset = 0, bitmask = 2 ^ (Suc g),
       lastword = 2, bitsize = 65, cvalue = 3 ^ (Suc g), kvalue = 3 ^ (Suc g) - 1,
       steps = of_nat (Suc g) + of_nat (Suc g), divsteps = of_nat (Suc g), mulsteps = of_nat (Suc g), laststep = 0\<rparr>"
    by (simp only: ones_even_step(2) [OF g])
  moreover have "(concat (replicate g [LazyStep, EvenStep]) @ [LazyStep]) @ [EvenStep] = concat (replicate (Suc g) [LazyStep, EvenStep])"
    by (simp only: concat_replicate_snoc append_assoc append_Cons append_Nil)
  ultimately show ?case by (simp only:)
qed

lemma ones_state_40:
  "\<lparr>narr = (\<lambda>i. 0)(1 := 1, 0 := - (2 ^ (40::nat))), wordoffset = 0, bitmask = 2 ^ (40::nat),
       lastword = 2, bitsize = 65, cvalue = 3 ^ (40::nat), kvalue = 3 ^ (40::nat) - 1,
       steps = of_nat (40::nat) + of_nat (40::nat), divsteps = of_nat (40::nat), mulsteps = of_nat (40::nat), laststep = 0\<rparr> =
     \<lparr>narr = (\<lambda>i. 0)(1 := 1, 0 := - (2 ^ 40)), wordoffset = 0, bitmask = 2 ^ 40,
      lastword = 2, bitsize = 65, cvalue = 3 ^ 40, kvalue = 3 ^ 40 - 1,
      steps = 80, divsteps = 40, mulsteps = 40, laststep = 0\<rparr>"
  by simp

lemma ones_exec_40:
  "exec (fresh_state ((\<lambda>i. 0)(1 := 1, 0 := - 1)) 2 65) (concat (replicate 40 [LazyStep, EvenStep]))
     \<lparr>narr = (\<lambda>i. 0)(1 := 1, 0 := - (2 ^ 40)), wordoffset = 0, bitmask = 2 ^ 40,
      lastword = 2, bitsize = 65, cvalue = 3 ^ 40, kvalue = 3 ^ 40 - 1,
      steps = 80, divsteps = 40, mulsteps = 40, laststep = 0\<rparr>"
  using ones_exec [of 40] unfolding ones_state_40 by (simp only: order_refl)

lemma ones_event_40:
  "event_of \<lparr>narr = (\<lambda>i. 0)(1 := 1, 0 := - (2 ^ 40)), wordoffset = 0, bitmask = 2 ^ 40,
      lastword = 2, bitsize = 65, cvalue = 3 ^ 40, kvalue = 3 ^ 40 - 1,
      steps = 80, divsteps = 40, mulsteps = 40, laststep = 0\<rparr> = Flush"
proof -
  let ?T = "\<lparr>narr = (\<lambda>i. 0)(1 := 1, 0 := - (2 ^ 40)), wordoffset = 0, bitmask = 2 ^ 40,
      lastword = 2, bitsize = 65, cvalue = 3 ^ 40, kvalue = 3 ^ 40 - 1,
      steps = 80, divsteps = 40, mulsteps = 40, laststep = 0\<rparr>"
  have ne: "\<not> is_even ?T"
    unfolding is_even_def by (simp only: state.simps fun_upd_same neg_two_power_bit(1) not_False_eq_True)
  have gd: "\<not> guard ?T"
    unfolding guard_def by (simp only: state.simps guard_three_power_40 simp_thms)
  show ?thesis unfolding event_of_def using ne gd by (simp only: if_False)
qed

lemma unat_minus_1_u64: "unat (- 1 :: u64) = 2 ^ 64 - 1"
  by (simp add: unsigned_minus_1_eq_mask mask_eq_exp_minus_1)

lemma words_value_two:
  "words_value mem lo (Suc (Suc 0)) = unat (mem lo) + 2 ^ 64 * unat (mem (Suc lo))"
  by simp

lemma ones_start_value: "buffer_value (fresh_state ((\<lambda>i. 0)(1 := 1, 0 := - 1)) 2 65) = 2 * 2 ^ 64 - 1"
proof -
  have n: "(2::nat) - 0 = Suc (Suc 0)" by simp
  have a: "((\<lambda>i. 0)(1 := 1, 0 := - 1 :: u64)) 0 = - 1" by simp
  have b: "((\<lambda>i. 0)(1 := 1, 0 := - 1 :: u64)) (Suc 0) = 1" by simp
  have c: "(2::nat) ^ 64 - 1 + 2 ^ 64 * 1 = 2 * 2 ^ 64 - 1" by simp
  show ?thesis
    unfolding buffer_value_def fresh_state_def
    by (simp only: state.simps n words_value_two a b unat_minus_1_u64 unsigned_1 c div_by_1)
qed

lemma eager_ones:
  "g \<le> 64 \<Longrightarrow> eager (concat (replicate g [LazyStep, EvenStep])) (2 * 2 ^ 64 - 1) =
     3 ^ g * 2 ^ (65 - g) - 1"
proof (induction g)
  case 0
  show ?case by (simp add: eager_def)
next
  case (Suc g)
  hence g: "g \<le> 63" by simp
  define p :: nat where "p = 3 ^ g * 2 ^ (64 - g)"
  have "0 < p" by (simp add: p_def)
  then obtain q where q: "p = Suc q" by (cases p) simp_all
  from g have "65 - g = Suc (64 - g)" by simp
  hence e1: "(3::nat) ^ g * 2 ^ (65 - g) = 2 * p" by (simp add: p_def)
  from g have e2: "(3::nat) ^ Suc g * 2 ^ (65 - Suc g) = 3 * p" by (simp add: p_def)
  from g have "g \<le> 64" by simp
  hence ih: "eager (concat (replicate g [LazyStep, EvenStep])) (2 * 2 ^ 64 - 1) = 2 * p - 1"
    unfolding e1 [symmetric] by (rule Suc.IH)
  have "eager (concat (replicate (Suc g) [LazyStep, EvenStep])) (2 * 2 ^ 64 - 1) =
        (3 * (2 * p - 1) + 1) div 2"
    unfolding concat_replicate_snoc using ih by (simp add: eager_def)
  also have "\<dots> = 3 * p - 1" unfolding q by simp
  finally show ?case unfolding e2 .
qed

lemma eager_ones_40:
  "eager (concat (replicate 40 [LazyStep, EvenStep]) @ [Flush]) (2 * 2 ^ 64 - 1) = 3 ^ 40 * 2 ^ 25 - 1"
proof -
  have a: "(40::nat) \<le> 64" by simp
  have b: "(65::nat) - 40 = 25" by simp
  show ?thesis
    unfolding eager_snoc eager_ones [OF a] b by (simp only: eager_step.simps)
qed

lemma ones_upper_40:
  "upper_value \<lparr>narr = (\<lambda>i. 0)(1 := 1, 0 := - (2 ^ 40)), wordoffset = 0, bitmask = 2 ^ 40,
      lastword = 2, bitsize = 65, cvalue = 3 ^ 40, kvalue = 3 ^ 40 - 1,
      steps = 80, divsteps = 40, mulsteps = 40, laststep = 0\<rparr> = 1"
proof -
  have n: "(2::nat) - (0 + 1) = Suc 0" by simp
  have c: "words_value mem lo (Suc 0) = unat (mem lo)" for mem lo by simp
  show ?thesis
    unfolding upper_value_def by (simp only: state.simps n c) simp
qed

lemma two_three_power: "(3::nat) ^ 40 * 1 + (3 ^ 40 - 1) = 2 * 3 ^ 40 - 1"
  by simp

text \<open>A run of C1 over more than one word: the number \<open>2^65 - 1\<close> (two words). Forty times
  a lazy evaluation is followed by a halving, which leaves \<open>cvalue = 3^40 > MAX_CVALUE\<close> and
  \<open>kvalue = 3^40 - 1\<close> with the cursor on bit 40 of word 0 and the word 1 above it. The next
  iteration is odd and fails the guard of line 107, so it runs the actualization: the word
  above the cursor becomes \<open>3^40 * 1 + 3^40 - 1 = 2 * 3^40 - 1\<close>, which does not fit one
  word, and the buffer holds \<open>3^40 * 2^25 - 1\<close>, the value of the reference computation.\<close>

theorem lazy_eager_equivalence_witness:
  "(0::nat) < 2 \<and> 2 \<le> SCRATCHPAD div 8 \<and>
   exec (fresh_state ((\<lambda>i. 0)(1 := 1, 0 := - 1)) 2 65) (concat (replicate 40 [LazyStep, EvenStep]))
     \<lparr>narr = (\<lambda>i. 0)(1 := 1, 0 := - (2 ^ 40)), wordoffset = 0, bitmask = 2 ^ 40,
      lastword = 2, bitsize = 65, cvalue = 3 ^ 40, kvalue = 3 ^ 40 - 1,
      steps = 80, divsteps = 40, mulsteps = 40, laststep = 0\<rparr> \<and>
   bitsize
     \<lparr>narr = (\<lambda>i. 0)(1 := 1, 0 := - (2 ^ 40)), wordoffset = 0, bitmask = 2 ^ 40,
      lastword = 2, bitsize = 65, cvalue = 3 ^ 40, kvalue = 3 ^ 40 - 1,
      steps = 80, divsteps = 40, mulsteps = 40, laststep = 0\<rparr> \<noteq> 1 \<and>
   event_of
     \<lparr>narr = (\<lambda>i. 0)(1 := 1, 0 := - (2 ^ 40)), wordoffset = 0, bitmask = 2 ^ 40,
      lastword = 2, bitsize = 65, cvalue = 3 ^ 40, kvalue = 3 ^ 40 - 1,
      steps = 80, divsteps = 40, mulsteps = 40, laststep = 0\<rparr> = Flush \<and>
   (\<exists>s'. step
     \<lparr>narr = (\<lambda>i. 0)(1 := 1, 0 := - (2 ^ 40)), wordoffset = 0, bitmask = 2 ^ 40,
      lastword = 2, bitsize = 65, cvalue = 3 ^ 40, kvalue = 3 ^ 40 - 1,
      steps = 80, divsteps = 40, mulsteps = 40, laststep = 0\<rparr> = Inr s' \<and>
     cvalue s' = 1 \<and> kvalue s' = 0 \<and> upper_value s' = 2 * 3 ^ 40 - 1 \<and>
     buffer_value s' =
       eager (concat (replicate 40 [LazyStep, EvenStep]) @ [Flush])
         (buffer_value (fresh_state ((\<lambda>i. 0)(1 := 1, 0 := - 1)) 2 65)) \<and>
     buffer_value s' = 3 ^ 40 * 2 ^ 25 - 1)"
proof -
  let ?s0 = "fresh_state ((\<lambda>i. 0)(1 := 1, 0 := - 1)) 2 65"
  let ?evs = "concat (replicate 40 [LazyStep, EvenStep])"
  let ?T = "\<lparr>narr = (\<lambda>i. 0)(1 := 1, 0 := - (2 ^ 40)), wordoffset = 0, bitmask = 2 ^ 40,
      lastword = 2, bitsize = 65, cvalue = 3 ^ 40, kvalue = 3 ^ 40 - 1,
      steps = 80, divsteps = 40, mulsteps = 40, laststep = 0\<rparr>"
  have h1: "(0::nat) < 2" by simp
  have h2: "(2::nat) \<le> SCRATCHPAD div 8" by (simp add: cap_value)
  have h3: "exec ?s0 ?evs ?T" by (rule ones_exec_40)
  have h4: "bitsize ?T \<noteq> 1" by (simp only: state.simps) simp
  have h5: "event_of ?T = Flush" by (rule ones_event_40)
  hence h5': "event_of ?T = LazyFlush \<or> event_of ?T = Flush" by (rule disjI2)
  have room: "lastword ?T \<noteq> SCRATCHPAD div 8" by (simp only: state.simps cap_value)
  have top: "narr ?T (lastword ?T - 1) \<noteq> 0" by (simp only: state.simps) simp
  have c: "unat (cvalue ?T) = 3 ^ 40" "unat (kvalue ?T) = 3 ^ 40 - 1"
    by (simp_all only: state.simps unat_three_power [OF order_refl]
        unat_three_power_pred [OF order_refl])
  have ev: "eager (?evs @ [Flush]) (buffer_value ?s0) = 3 ^ 40 * 2 ^ 25 - 1"
    by (simp only: ones_start_value eager_ones_40)
  note main = lazy_eager_equivalence [OF h1 h2 h3 h4 h5']
  have ex: "\<exists>s'. step ?T = Inr s' \<and> cvalue s' = 1 \<and> kvalue s' = 0 \<and>
          upper_value s' = 2 * 3 ^ 40 - 1 \<and>
          buffer_value s' = eager (?evs @ [Flush]) (buffer_value ?s0) \<and>
          buffer_value s' = 3 ^ 40 * 2 ^ 25 - 1"
  proof (cases "step ?T")
    case (Inl e)
    with main have "lastword ?T = SCRATCHPAD div 8 \<or>
        (event_of ?T = Flush \<and> narr ?T (lastword ?T - 1) = 0)"
      by (simp only: sum.case)
    with room top show ?thesis by blast
  next
    case (Inr s')
    with main have m: "cvalue s' = 1 \<and> kvalue s' = 0 \<and>
        upper_value s' =
          (let t = (if event_of ?T = Flush then ?T else lazy_update ?T)
           in unat (cvalue t) * upper_value t + unat (kvalue t)) \<and>
        buffer_value s' = eager (?evs @ [event_of ?T]) (buffer_value ?s0)"
      by (simp only: sum.case)
    from m [THEN conjunct2, THEN conjunct2, THEN conjunct1]
    have "upper_value s' = unat (cvalue ?T) * upper_value ?T + unat (kvalue ?T)"
      by (simp only: h5 Let_def simp_thms if_True)
    hence "upper_value s' = 3 ^ 40 * 1 + (3 ^ 40 - 1)" by (simp only: c ones_upper_40)
    hence u: "upper_value s' = 2 * 3 ^ 40 - 1" by (simp only: two_three_power)
    from m [THEN conjunct2, THEN conjunct2, THEN conjunct2]
    have b: "buffer_value s' = eager (?evs @ [Flush]) (buffer_value ?s0)"
      by (simp only: h5)
    from b have b': "buffer_value s' = 3 ^ 40 * 2 ^ 25 - 1" by (simp only: ev)
    show ?thesis
      by (intro exI [of _ s'] conjI Inr m [THEN conjunct1] m [THEN conjunct2, THEN conjunct1] u b b')
  qed
  show ?thesis by (intro conjI h1 h2 h3 h4 h5 ex)
qed

end
